theory Spec2Isabelle
  imports Complex_Main "HOL-Library.Multiset"
begin

section \<open>SANA-FE: the neuron pipeline and the NoC message scheduler\<close>

text \<open>
  A shallow embedding of \<^verbatim>\<open>pipeline.cpp\<close> and \<^verbatim>\<open>schedule.cpp\<close>.

  Conventions of the embedding.
  \<^item> A C++ \<^verbatim>\<open>double\<close> is a \<^typ>\<open>real\<close>: arithmetic is exact, there is no rounding, no NaN
    and no infinity.
  \<^item> \<^verbatim>\<open>int\<close> and \<^verbatim>\<open>long int\<close> are \<^typ>\<open>int\<close>, \<^verbatim>\<open>size_t\<close> is \<^typ>\<open>nat\<close>; where the
    source multiplies two \<^verbatim>\<open>size_t\<close> values the wrap-around at \<open>2 ^ 64\<close> is written out.
  \<^item> Objects that the source reaches through pointers or references (cores, neurons,
    connections, hardware units, scheduled messages) live in stores: total maps from an
    address to the object. A pointer is an address, a write through the pointer is an
    update of the store.
  \<^item> The neuron, dendrite and synapse models are external (plugins). Each is a state of
    an arbitrary type together with its \<^verbatim>\<open>update\<close> method, a function from the state and
    the input to the result and the next state.
  \<^item> Indexing a \<^verbatim>\<open>std::vector\<close> out of range and \<^verbatim>\<open>back()\<close> of an empty vector are
    undefined behaviour in C++. Where the source checks a range with \<^verbatim>\<open>assert\<close> the
    failed assertion is an error value; elsewhere every theorem states the range it needs.
\<close>

subsection \<open>Data model\<close>

datatype NeuronStatus = INVALID_NEURON_STATE | IDLE | UPDATED | FIRED

text \<open>
  Modelled from the spec: \<^verbatim>\<open>enum BufferPosition : int\<close> is only declared in the sources
  at hand; its enumerators are defined in \<^verbatim>\<open>arch.hpp\<close>. The spec fixes the pipeline
  order axon-in, synapse, dendrite, soma, axon-out and the three buffer positions
  \<open>before_dendrite\<close>, \<open>before_soma\<close>, \<open>before_axon_out\<close> in that order.
\<close>

type_synonym BufferPosition = int

definition BUFFER_BEFORE_DENDRITE_UNIT :: BufferPosition where
  "BUFFER_BEFORE_DENDRITE_UNIT = 0"

definition BUFFER_BEFORE_SOMA_UNIT :: BufferPosition where
  "BUFFER_BEFORE_SOMA_UNIT = 1"

definition BUFFER_BEFORE_AXON_OUT_UNIT :: BufferPosition where
  "BUFFER_BEFORE_AXON_OUT_UNIT = 2"

text \<open>\<^verbatim>\<open>struct Message\<close> of \<^verbatim>\<open>chip.hpp\<close>.\<close>

record Message =
  generation_delay :: real
  network_delay :: real
  receive_delay :: real
  blocked_delay :: real
  sent_timestamp :: real
  received_timestamp :: real
  processed_timestamp :: real
  timestep :: int
  spikes :: int
  hops :: nat
  src_neuron_id :: nat
  src_neuron_group_id :: string
  src_x :: int
  dest_x :: int
  src_y :: int
  dest_y :: int
  src_tile_id :: int
  src_core_id :: int
  src_core_offset :: int
  dest_tile_id :: int
  dest_core_id :: int
  dest_core_offset :: int
  dest_axon_hw :: int
  dest_axon_id :: int
  placeholder :: bool
  in_noc :: bool

text \<open>The synaptic input buffered at a dendrite: \<^verbatim>\<open>{current, dendrite_params}\<close>.\<close>

type_synonym ModelParams = "(string \<times> string) list"

record Synapse =
  current :: real
  dendrite_params :: ModelParams

record ('dm, 'sm) Neuron =
  neuron_id :: nat
  axon_out_addresses :: "int list"
  core :: nat
  soma_hw :: nat
  axon_out_hw :: nat
  dendrite_model :: 'dm
  soma_model :: 'sm
  spike_count :: int
  forced_spikes :: int
  status :: NeuronStatus
  dendrite_input_synapses :: "Synapse list"
  soma_input_charge :: real
  axon_out_input_spike :: bool
  soma_last_updated :: int
  dendrite_last_updated :: int

record 'ym Connection =
  post_neuron :: nat
  synapse_hw :: "nat option"
  synapse_model :: 'ym
  con_dendrite_params :: ModelParams
  last_updated :: int

record AxonInUnit =
  spike_messages_in :: int
  latency_spike_message :: real

record SynapseUnit =
  spikes_processed :: int
  latency_spike_op :: real

record SomaUnit =
  neuron_updates :: int
  neurons_fired :: int
  latency_access_neuron :: real
  latency_update_neuron :: real
  latency_spiking :: real

record AxonOutUnit =
  packets_out :: int
  latency_access :: real

record AxonInModel =
  synapse_addresses :: "int list"

record Core =
  neurons :: "nat list"
  next_message_generation_delay :: real
  core_id :: nat
  timestep_buffer_pos :: BufferPosition
  axon_in_hw :: "AxonInUnit list"
  axons_in :: "AxonInModel list"
  connections_in :: "nat list"

record Timestep =
  messages :: "Message list list"
  ts_timestep :: int

text \<open>
  The chip as the pipeline sees it: the objects behind the pointers. \<open>cores\<close> are the
  cores by address, \<open>neuron_at\<close> the neurons, \<open>connection_at\<close> the connections; the three
  remaining stores hold the hardware units that neurons and connections point to.
\<close>

record ('ym, 'dm, 'sm) Architecture =
  cores :: "nat \<Rightarrow> Core"
  neuron_at :: "nat \<Rightarrow> ('dm, 'sm) Neuron"
  connection_at :: "nat \<Rightarrow> 'ym Connection"
  soma_unit_at :: "nat \<Rightarrow> SomaUnit"
  axon_out_unit_at :: "nat \<Rightarrow> AxonOutUnit"
  synapse_unit_at :: "nat \<Rightarrow> SynapseUnit"

text \<open>
  The external collaborators of the pipeline. \<open>synapse_update\<close>, \<open>dendrite_update\<close> and
  \<open>soma_update\<close> are the \<^verbatim>\<open>update\<close> methods of the three model kinds; the input is
  \<open>None\<close> for the call without argument (\<^verbatim>\<open>update()\<close>, \<^verbatim>\<open>std::nullopt\<close>).
  \<open>message_fields\<close> stands for the part of the two \<^verbatim>\<open>Message\<close> constructors that
  resolves the identity fields of a message (coordinates, tile, core and axon ids) from
  the chip; the constructors are defined outside the sources at hand.
\<close>

record ('ym, 'dm, 'sm) Models =
  synapse_update :: "'ym \<Rightarrow> int option \<Rightarrow> real \<times> 'ym"
  dendrite_update :: "'dm \<Rightarrow> Synapse option \<Rightarrow> real \<times> 'dm"
  soma_update :: "'sm \<Rightarrow> real option \<Rightarrow> NeuronStatus \<times> 'sm"
  message_fields :: "('dm, 'sm) Neuron \<Rightarrow> int option \<Rightarrow> Message"

text \<open>
  Modelled from the spec: the constructors \<^verbatim>\<open>Message(hw, n, timestep)\<close> and
  \<^verbatim>\<open>Message(hw, n, timestep, axon_address)\<close> are declared in \<^verbatim>\<open>chip.hpp\<close> and defined
  elsewhere. By the spec a message records its source neuron and its timestep; the
  message built without an axon address is a placeholder (\<^verbatim>\<open>placeholder{true}\<close> is the
  member's default in \<^verbatim>\<open>chip.hpp\<close>), the one built for an axon address is a real spike
  message. Both start with \<^verbatim>\<open>generation_delay{0.0}\<close>.
\<close>

definition Message_placeholder ::
  "('ym, 'dm, 'sm) Models \<Rightarrow> ('dm, 'sm) Neuron \<Rightarrow> int \<Rightarrow> Message" where
  "Message_placeholder M n t =
     (message_fields M n None)
       \<lparr>generation_delay := 0, timestep := t, src_neuron_id := neuron_id n,
        placeholder := True\<rparr>"

definition Message_spike ::
  "('ym, 'dm, 'sm) Models \<Rightarrow> ('dm, 'sm) Neuron \<Rightarrow> int \<Rightarrow> int \<Rightarrow> Message" where
  "Message_spike M n t axon_address =
     (message_fields M n (Some axon_address))
       \<lparr>generation_delay := 0, timestep := t, src_neuron_id := neuron_id n,
        placeholder := False\<rparr>"

subsection \<open>The hardware units of the pipeline (\<^verbatim>\<open>pipeline.cpp\<close>)\<close>

text \<open>\<^verbatim>\<open>ts.messages[core_id].push_back(m)\<close>.\<close>

definition push_message :: "nat \<Rightarrow> Message \<Rightarrow> Timestep \<Rightarrow> Timestep" where
  "push_message cid m ts = ts\<lparr>messages := (messages ts)[cid := messages ts ! cid @ [m]]\<rparr>"

text \<open>
  \<^verbatim>\<open>pipeline_process_dendrite\<close>: first the loop that catches up with missed timesteps,
  then one model update for each buffered synaptic input. The returned latency is the
  constant zero of the source.
\<close>

function dendrite_catch_up ::
  "('ym, 'dm, 'sm) Models \<Rightarrow> int \<Rightarrow> ('dm, 'sm) Neuron \<Rightarrow> ('dm, 'sm) Neuron" where
  "dendrite_catch_up M t n =
     (if dendrite_last_updated n < t
      then dendrite_catch_up M t
             (n\<lparr>soma_input_charge := fst (dendrite_update M (dendrite_model n) None),
                dendrite_model := snd (dendrite_update M (dendrite_model n) None),
                dendrite_last_updated := dendrite_last_updated n + 1\<rparr>)
      else n)"
  by pat_completeness auto
termination
  by (relation "measure (\<lambda>(M, t, n). nat (t - dendrite_last_updated n))") auto

definition dendrite_integrate ::
  "('ym, 'dm, 'sm) Models \<Rightarrow> Synapse \<Rightarrow> ('dm, 'sm) Neuron \<Rightarrow> ('dm, 'sm) Neuron" where
  "dendrite_integrate M synapse n =
     n\<lparr>soma_input_charge := fst (dendrite_update M (dendrite_model n) (Some synapse)),
       dendrite_model := snd (dendrite_update M (dendrite_model n) (Some synapse))\<rparr>"

definition pipeline_process_dendrite ::
  "('ym, 'dm, 'sm) Models \<Rightarrow> Timestep \<Rightarrow> nat \<Rightarrow> ('ym, 'dm, 'sm) Architecture
     \<Rightarrow> real \<times> ('ym, 'dm, 'sm) Architecture" where
  "pipeline_process_dendrite M ts n arch =
     (let n1 = dendrite_catch_up M (ts_timestep ts) (neuron_at arch n);
          n2 = fold (dendrite_integrate M) (dendrite_input_synapses n1) n1;
          n3 = n2\<lparr>dendrite_input_synapses := []\<rparr>
      in (0, arch\<lparr>neuron_at := (neuron_at arch)(n := n3)\<rparr>))"

text \<open>
  \<^verbatim>\<open>pipeline_process_soma\<close>. \<open>soma_step\<close> is the body of the \<^verbatim>\<open>while\<close> loop; it works on
  the neuron, on the soma unit the neuron points to and on the latency summed so far.
\<close>

definition soma_current_in :: "('dm, 'sm) Neuron \<Rightarrow> real option" where
  "soma_current_in n =
     (if spike_count n > 0 \<or> \<bar>soma_input_charge n\<bar> > 0
      then Some (soma_input_charge n) else None)"

definition soma_step ::
  "('ym, 'dm, 'sm) Models \<Rightarrow> ('dm, 'sm) Neuron \<times> SomaUnit \<times> real
     \<Rightarrow> ('dm, 'sm) Neuron \<times> SomaUnit \<times> real" where
  "soma_step M = (\<lambda>(n, hw, soma_processing_latency).
     (let current_in = soma_current_in n;
          n1 = (if spike_count n > 0 \<or> \<bar>soma_input_charge n\<bar> > 0
                then n\<lparr>soma_input_charge := 0\<rparr> else n);
          n2 = n1\<lparr>status := fst (soma_update M (soma_model n1) current_in),
                  soma_model := snd (soma_update M (soma_model n1) current_in)\<rparr>;
          n3 = (if forced_spikes n2 > 0
                then n2\<lparr>status := FIRED, forced_spikes := forced_spikes n2 - 1\<rparr> else n2);
          l1 = soma_processing_latency + latency_access_neuron hw;
          (l2, hw2) = (if status n3 = UPDATED \<or> status n3 = FIRED
                       then (l1 + latency_update_neuron hw,
                             hw\<lparr>neuron_updates := neuron_updates hw + 1\<rparr>)
                       else (l1, hw));
          (l3, hw3, n4) = (if status n3 = FIRED
                           then (l2 + latency_spiking hw2,
                                 hw2\<lparr>neurons_fired := neurons_fired hw2 + 1\<rparr>,
                                 n3\<lparr>axon_out_input_spike := True\<rparr>)
                           else (l2, hw2, n3))
      in (n4\<lparr>soma_last_updated := soma_last_updated n4 + 1\<rparr>, hw3, l3)))"

lemma soma_last_updated_soma_step:
  "soma_last_updated (fst (soma_step M (n, hw, l))) = soma_last_updated n + 1"
  by (simp add: soma_step_def Let_def split: prod.splits if_splits)

function soma_loop ::
  "('ym, 'dm, 'sm) Models \<Rightarrow> int \<Rightarrow> ('dm, 'sm) Neuron \<times> SomaUnit \<times> real
     \<Rightarrow> ('dm, 'sm) Neuron \<times> SomaUnit \<times> real" where
  "soma_loop M t s =
     (if soma_last_updated (fst s) < t then soma_loop M t (soma_step M s) else s)"
  by pat_completeness auto
termination
proof (relation "measure (\<lambda>(M, t, s). nat (t - soma_last_updated (fst s)))")
  show "wf (measure (\<lambda>(M :: ('ym, 'dm, 'sm) Models, t, s :: ('dm, 'sm) Neuron \<times> SomaUnit \<times> real).
            nat (t - soma_last_updated (fst s))))"
    by simp
next
  fix M :: "('ym, 'dm, 'sm) Models" and t and s :: "('dm, 'sm) Neuron \<times> SomaUnit \<times> real"
  assume "soma_last_updated (fst s) < t"
  moreover obtain n hw l where "s = (n, hw, l)"
    by (cases s)
  ultimately show "((M, t, soma_step M s), (M, t, s))
      \<in> measure (\<lambda>(M, t, s). nat (t - soma_last_updated (fst s)))"
    by (simp add: soma_last_updated_soma_step)
qed

definition pipeline_process_soma ::
  "('ym, 'dm, 'sm) Models \<Rightarrow> Timestep \<Rightarrow> nat \<Rightarrow> ('ym, 'dm, 'sm) Architecture
     \<Rightarrow> real \<times> ('ym, 'dm, 'sm) Architecture" where
  "pipeline_process_soma M ts n arch =
     (let nrn = neuron_at arch n;
          (nrn', hw', soma_processing_latency) =
             soma_loop M (ts_timestep ts) (nrn, soma_unit_at arch (soma_hw nrn), 0)
      in (soma_processing_latency,
          arch\<lparr>neuron_at := (neuron_at arch)(n := nrn'),
               soma_unit_at := (soma_unit_at arch)(soma_hw nrn := hw')\<rparr>))"

text \<open>
  \<^verbatim>\<open>pipeline_process_axon_out\<close>. \<open>axon_out_send\<close> is the body of the loop over the
  neuron's axon addresses.
\<close>

definition axon_out_send ::
  "('ym, 'dm, 'sm) Models \<Rightarrow> nat \<Rightarrow> int \<Rightarrow> Timestep \<times> ('ym, 'dm, 'sm) Architecture
     \<Rightarrow> Timestep \<times> ('ym, 'dm, 'sm) Architecture" where
  "axon_out_send M n axon_address = (\<lambda>(ts, arch).
     (let nrn = neuron_at arch n;
          m = Message_spike M nrn (ts_timestep ts) axon_address;
          axon_out = axon_out_unit_at arch (axon_out_hw nrn);
          c = cores arch (core nrn);
          m1 = m\<lparr>generation_delay := next_message_generation_delay c\<rparr>;
          c1 = c\<lparr>next_message_generation_delay := 0\<rparr>;
          m2 = m1\<lparr>generation_delay := generation_delay m1 + latency_access axon_out\<rparr>
      in (push_message (core_id c1) m2 ts,
          arch\<lparr>cores := (cores arch)(core nrn := c1),
               axon_out_unit_at := (axon_out_unit_at arch)
                 (axon_out_hw nrn := axon_out\<lparr>packets_out := packets_out axon_out + 1\<rparr>)\<rparr>)))"

definition pipeline_process_axon_out ::
  "('ym, 'dm, 'sm) Models \<Rightarrow> nat \<Rightarrow> Timestep \<times> ('ym, 'dm, 'sm) Architecture
     \<Rightarrow> real \<times> Timestep \<times> ('ym, 'dm, 'sm) Architecture" where
  "pipeline_process_axon_out M n = (\<lambda>(ts, arch).
     (if \<not> axon_out_input_spike (neuron_at arch n) then (0, ts, arch)
      else
        (let (ts', arch') =
               fold (axon_out_send M n) (axon_out_addresses (neuron_at arch n)) (ts, arch);
             nrn = neuron_at arch' n;
             arch'' = arch'\<lparr>neuron_at := (neuron_at arch')(n := nrn\<lparr>axon_out_input_spike := False\<rparr>)\<rparr>
         in (latency_access (axon_out_unit_at arch'' (axon_out_hw nrn)), ts', arch''))))"

text \<open>
  \<^verbatim>\<open>pipeline_process_neuron\<close>. \<open>neuron_units\<close> runs the units of the send side and
  sums their latencies into the local \<^verbatim>\<open>neuron_processing_latency\<close>; the buffer
  position is read through \<^verbatim>\<open>n.core\<close> before each unit, as in the source.
\<close>

definition buffer_pos_of :: "('ym, 'dm, 'sm) Architecture \<Rightarrow> nat \<Rightarrow> BufferPosition" where
  "buffer_pos_of arch n = timestep_buffer_pos (cores arch (core (neuron_at arch n)))"

definition neuron_units ::
  "('ym, 'dm, 'sm) Models \<Rightarrow> nat \<Rightarrow> Timestep \<times> ('ym, 'dm, 'sm) Architecture
     \<Rightarrow> real \<times> Timestep \<times> ('ym, 'dm, 'sm) Architecture" where
  "neuron_units M n = (\<lambda>(ts, arch).
     (let (l1, arch1) =
            (if buffer_pos_of arch n \<le> BUFFER_BEFORE_DENDRITE_UNIT
             then (let (l, a) = pipeline_process_dendrite M ts n arch in (0 + l, a))
             else (0, arch));
          (l2, arch2) =
            (if buffer_pos_of arch1 n \<le> BUFFER_BEFORE_SOMA_UNIT
             then (let (l, a) = pipeline_process_soma M ts n arch1 in (l1 + l, a))
             else (l1, arch1))
      in (if buffer_pos_of arch2 n \<le> BUFFER_BEFORE_AXON_OUT_UNIT
          then (let (l, ts3, a) = pipeline_process_axon_out M n (ts, arch2) in (l2 + l, ts3, a))
          else (l2, ts, arch2))))"

definition pipeline_process_neuron ::
  "('ym, 'dm, 'sm) Models \<Rightarrow> nat \<Rightarrow> Timestep \<times> ('ym, 'dm, 'sm) Architecture
     \<Rightarrow> Timestep \<times> ('ym, 'dm, 'sm) Architecture" where
  "pipeline_process_neuron M n s =
     (let (neuron_processing_latency, ts', arch1) = neuron_units M n s;
          c = core (neuron_at arch1 n);
          arch2 = arch1\<lparr>cores := (cores arch1)
                    (c := (cores arch1 c)\<lparr>next_message_generation_delay :=
                       next_message_generation_delay (cores arch1 c) + neuron_processing_latency\<rparr>)\<rparr>
      in (ts', arch2\<lparr>neuron_at := (neuron_at arch2)(n := (neuron_at arch2 n)\<lparr>spike_count := 0\<rparr>)\<rparr>))"

text \<open>
  \<^verbatim>\<open>pipeline_process_neurons\<close>: \<open>process_neurons_core\<close> is the body of the loop over the
  cores, \<open>cs\<close> are the addresses that \<^verbatim>\<open>arch.cores()\<close> returns.
\<close>

definition process_neurons_core ::
  "('ym, 'dm, 'sm) Models \<Rightarrow> nat \<Rightarrow> Timestep \<times> ('ym, 'dm, 'sm) Architecture
     \<Rightarrow> Timestep \<times> ('ym, 'dm, 'sm) Architecture" where
  "process_neurons_core M c s =
     (let (ts1, arch1) = fold (pipeline_process_neuron M) (neurons (cores (snd s) c)) s;
          co = cores arch1 c
      in (if next_message_generation_delay co \<noteq> 0
          then (let last_neuron = neuron_at arch1 (last (neurons co));
                    placeholder_message = Message_placeholder M last_neuron (ts_timestep ts1)
                in (push_message (core_id co)
                      (placeholder_message\<lparr>generation_delay := next_message_generation_delay co\<rparr>)
                      ts1,
                    arch1))
          else (ts1, arch1)))"

definition pipeline_process_neurons ::
  "('ym, 'dm, 'sm) Models \<Rightarrow> nat list \<Rightarrow> Timestep \<times> ('ym, 'dm, 'sm) Architecture
     \<Rightarrow> Timestep \<times> ('ym, 'dm, 'sm) Architecture" where
  "pipeline_process_neurons M cs s = fold (process_neurons_core M) cs s"

subsection \<open>The receive side (\<^verbatim>\<open>pipeline_process_message\<close>)\<close>

text \<open>
  What stops the program: one value for each \<^verbatim>\<open>assert\<close> of the source
  (\<open>Assert_flow_density\<close> is the scheduler's), and \<open>Out_of_range\<close> for an access outside
  \<^verbatim>\<open>core.connections_in\<close> or outside one of the scheduler's per-core vectors.
\<close>

datatype error =
    Assert_dest_axon_hw
  | Assert_dest_axon_id
  | Assert_synapse_hw
  | Assert_buffer_pos
  | Assert_flow_density
  | Out_of_range

definition pipeline_process_axon_in ::
  "nat \<Rightarrow> Message \<Rightarrow> ('ym, 'dm, 'sm) Architecture
     \<Rightarrow> error + real \<times> ('ym, 'dm, 'sm) Architecture" where
  "pipeline_process_axon_in c m arch =
     (if \<not> (dest_axon_hw m \<ge> 0) then Inl Assert_dest_axon_hw
      else if \<not> (nat (dest_axon_hw m) < length (axon_in_hw (cores arch c)))
      then Inl Assert_dest_axon_hw
      else
        (let co = cores arch c;
             axon_unit = axon_in_hw co ! nat (dest_axon_hw m);
             axon_unit' = axon_unit\<lparr>spike_messages_in := spike_messages_in axon_unit + 1\<rparr>
         in Inr (latency_spike_message axon_unit',
                 arch\<lparr>cores := (cores arch)
                   (c := co\<lparr>axon_in_hw := (axon_in_hw co)[nat (dest_axon_hw m) := axon_unit']\<rparr>)\<rparr>)))"

function synapse_catch_up ::
  "('ym, 'dm, 'sm) Models \<Rightarrow> int \<Rightarrow> 'ym Connection \<Rightarrow> 'ym Connection" where
  "synapse_catch_up M t con =
     (if last_updated con < t
      then synapse_catch_up M t
             (con\<lparr>synapse_model := snd (synapse_update M (synapse_model con) None),
                  last_updated := last_updated con + 1\<rparr>)
      else con)"
  by pat_completeness auto
termination
  by (relation "measure (\<lambda>(M, t, con). nat (t - last_updated con))") auto

definition pipeline_process_synapse ::
  "('ym, 'dm, 'sm) Models \<Rightarrow> Timestep \<Rightarrow> nat \<Rightarrow> int \<Rightarrow> ('ym, 'dm, 'sm) Architecture
     \<Rightarrow> error + real \<times> ('ym, 'dm, 'sm) Architecture" where
  "pipeline_process_synapse M ts con synapse_address arch =
     (let con1 = synapse_catch_up M (ts_timestep ts) (connection_at arch con);
          r = synapse_update M (synapse_model con1) (Some synapse_address);
          synapse_data = \<lparr>current = fst r, dendrite_params = con_dendrite_params con1\<rparr>;
          con2 = con1\<lparr>synapse_model := snd r\<rparr>;
          post = neuron_at arch (post_neuron con2);
          post' = post\<lparr>dendrite_input_synapses := dendrite_input_synapses post @ [synapse_data],
                      spike_count := spike_count post + 1\<rparr>
      in (case synapse_hw con2 of
            None \<Rightarrow> Inl Assert_synapse_hw
          | Some h \<Rightarrow>
              (let hw = synapse_unit_at arch h;
                   hw' = hw\<lparr>spikes_processed := spikes_processed hw + 1\<rparr>
               in Inr (latency_spike_op hw',
                       arch\<lparr>connection_at := (connection_at arch)(con := con2),
                            neuron_at := (neuron_at arch)(post_neuron con2 := post'),
                            synapse_unit_at := (synapse_unit_at arch)(h := hw')\<rparr>))))"

text \<open>
  The body of the loop over the synapse addresses of the in-axon. \<open>c\<close> is the receiving
  core, \<open>l\<close> the \<^verbatim>\<open>message_processing_latency\<close> summed so far.
\<close>

definition receive_synapse ::
  "('ym, 'dm, 'sm) Models \<Rightarrow> Timestep \<Rightarrow> nat \<Rightarrow> int \<Rightarrow> real \<times> ('ym, 'dm, 'sm) Architecture
     \<Rightarrow> error + real \<times> ('ym, 'dm, 'sm) Architecture" where
  "receive_synapse M ts c synapse_address = (\<lambda>(l, arch).
     (if \<not> (0 \<le> synapse_address \<and> nat synapse_address < length (connections_in (cores arch c)))
      then Inl Out_of_range
      else
        (let con = connections_in (cores arch c) ! nat synapse_address in
         case pipeline_process_synapse M ts con synapse_address arch of
           Inl e \<Rightarrow> Inl e
         | Inr (l_syn, arch1) \<Rightarrow>
             (if timestep_buffer_pos (cores arch1 c) = BUFFER_BEFORE_DENDRITE_UNIT
              then Inr (l + l_syn, arch1)
              else
                (let n = post_neuron (connection_at arch1 con);
                     (l_den, arch2) = pipeline_process_dendrite M ts n arch1
                 in (if timestep_buffer_pos (cores arch2 c) = BUFFER_BEFORE_SOMA_UNIT
                     then Inr (l + l_syn + l_den, arch2)
                     else
                       (let (l_soma, arch3) = pipeline_process_soma M ts n arch2
                        in (if timestep_buffer_pos (cores arch3 c) = BUFFER_BEFORE_AXON_OUT_UNIT
                            then Inr (l + l_syn + l_den + l_soma, arch3)
                            else Inl Assert_buffer_pos))))))))"

fun receive_synapses ::
  "('ym, 'dm, 'sm) Models \<Rightarrow> Timestep \<Rightarrow> nat \<Rightarrow> int list \<Rightarrow> real \<times> ('ym, 'dm, 'sm) Architecture
     \<Rightarrow> error + real \<times> ('ym, 'dm, 'sm) Architecture" where
  "receive_synapses M ts c [] s = Inr s"
| "receive_synapses M ts c (a # as) s =
     (case receive_synapse M ts c a s of
        Inl e \<Rightarrow> Inl e
      | Inr s' \<Rightarrow> receive_synapses M ts c as s')"

definition pipeline_process_message ::
  "('ym, 'dm, 'sm) Models \<Rightarrow> Timestep \<Rightarrow> nat \<Rightarrow> Message \<Rightarrow> ('ym, 'dm, 'sm) Architecture
     \<Rightarrow> error + real \<times> ('ym, 'dm, 'sm) Architecture" where
  "pipeline_process_message M ts c m arch =
     (case pipeline_process_axon_in c m arch of
        Inl e \<Rightarrow> Inl e
      | Inr (message_processing_latency, arch1) \<Rightarrow>
          (if \<not> (0 \<le> dest_axon_id m \<and> nat (dest_axon_id m) < length (axons_in (cores arch1 c)))
           then Inl Assert_dest_axon_id
           else receive_synapses M ts c
                  (synapse_addresses (axons_in (cores arch1 c) ! nat (dest_axon_id m)))
                  (message_processing_latency, arch1)))"

section \<open>The NoC scheduler (\<^verbatim>\<open>schedule.cpp\<close>)\<close>

text \<open>
  Modelled from the spec: the link directions are an enumeration of a header that is not
  among the sources at hand. The spec names the inter-tile links north, east, south and
  west, in this order, and gives the intra-tile link of a core the index
  \<open>ndirections + core_offset\<close>.
\<close>

definition north :: int where "north = 0"
definition east :: int where "east = 1"
definition south :: int where "south = 2"
definition west :: int where "west = 3"
definition ndirections :: int where "ndirections = 4"

record NocGeometry =
  noc_width :: int
  noc_height :: int
  core_count :: nat
  max_cores_per_tile :: nat

text \<open>
  \<^verbatim>\<open>struct Scheduler\<close> and \<^verbatim>\<open>struct NocInfo\<close> are declared in \<^verbatim>\<open>schedule.hpp\<close>, which
  is not among the sources at hand; their fields are the ones \<^verbatim>\<open>schedule.cpp\<close> uses.
  The scheduler works on references to the caller's messages
  (\<^verbatim>\<open>std::reference_wrapper<Message>\<close>): it writes the timestamps into the messages of
  its argument, and the heap, the per-core queues and the NoC's receive queues all refer
  to the same objects. A reference is the pair of the index of the source core's list
  and the position in that list; \<open>sched_store\<close> maps the references to the messages.
\<close>

record Scheduler = NocGeometry +
  buffer_size :: nat

type_synonym mref = "nat \<times> nat"

record NocInfo = NocGeometry +
  message_density :: "real list"
  messages_received :: "mref list list"
  core_finished_receiving :: "real list"
  mean_in_flight_receive_delay :: real
  messages_in_noc :: int

text \<open>
  Modelled from the spec: \<^verbatim>\<open>NocInfo::idx\<close> is defined in \<^verbatim>\<open>schedule.hpp\<close>. By the spec
  the density vector has \<open>W * H * (ndirections + max_cores_per_tile)\<close> entries, indexed by
  \<open>(x, y, link)\<close>.
\<close>

definition idx :: "'a NocGeometry_scheme \<Rightarrow> int \<Rightarrow> int \<Rightarrow> int \<Rightarrow> nat" where
  "idx noc x y link =
     nat (x * noc_height noc * (ndirections + int (max_cores_per_tile noc))
          + y * (ndirections + int (max_cores_per_tile noc)) + link)"

text \<open>
  \<^verbatim>\<open>for (int x = from; x != stop; x += inc) body\<close>. The source runs the loop with
  \<open>inc = 1\<close> when \<open>from < stop\<close> and with \<open>inc = -1\<close> otherwise, so \<open>x\<close> moves towards
  \<open>stop\<close>. The second condition of the model says so; it holds whenever \<open>x \<noteq> stop\<close> in
  the loops of the source (lemma \<open>for_loop_towards\<close>), and it is what makes the loop
  terminate.
\<close>

function for_loop :: "int \<Rightarrow> int \<Rightarrow> int \<Rightarrow> (int \<Rightarrow> 's \<Rightarrow> 's) \<Rightarrow> 's \<Rightarrow> 's" where
  "for_loop x stop inc body s =
     (if x \<noteq> stop \<and> ((inc = 1 \<and> x < stop) \<or> (inc = - 1 \<and> stop < x))
      then for_loop (x + inc) stop inc body (body x s)
      else s)"
  by pat_completeness auto
termination
  by (relation "measure (\<lambda>(x, stop, inc, body, s). nat \<bar>stop - x\<bar>)") auto

definition x_increment :: "Message \<Rightarrow> int" where
  "x_increment m = (if src_x m < dest_x m then 1 else - 1)"

definition y_increment :: "Message \<Rightarrow> int" where
  "y_increment m = (if src_y m < dest_y m then 1 else - 1)"

text \<open>\<^verbatim>\<open>noc.message_density[i] += adjust\<close>.\<close>

definition density_add :: "nat \<Rightarrow> real \<Rightarrow> real list \<Rightarrow> real list" where
  "density_add i adjust d = d[i := d ! i + adjust]"

definition schedule_update_noc_message_counts :: "Message \<Rightarrow> NocInfo \<Rightarrow> bool \<Rightarrow> NocInfo" where
  "schedule_update_noc_message_counts m noc message_in =
     (let adjust0 = 1 / (2 + real (hops m));
          adjust = (if \<not> message_in then adjust0 * - 1 else adjust0);
          (prev1, d1) =
            for_loop (src_x m) (dest_x m) (x_increment m)
              (\<lambda>x (prev_direction, d).
                 (let direction = (if x_increment m > 0 then east else west)
                  in (direction,
                      if x = src_x m
                      then density_add (idx noc x (src_y m) (ndirections + src_core_offset m)) adjust d
                      else density_add (idx noc x (src_y m) direction) adjust d)))
              (ndirections + src_core_offset m, message_density noc);
          (prev2, d2) =
            for_loop (src_y m) (dest_y m) (y_increment m)
              (\<lambda>y (prev_direction, d).
                 (let direction = (if y_increment m > 0 then north else south)
                  in (direction,
                      if src_x m = dest_x m \<and> y = src_y m
                      then density_add (idx noc (dest_x m) y (ndirections + src_core_offset m)) adjust d
                      else density_add (idx noc (dest_x m) y prev_direction) adjust d)))
              (prev1, d1);
          d3 = (if src_x m = dest_x m \<and> src_y m = dest_y m
                then density_add (idx noc (dest_x m) (dest_y m) (ndirections + src_core_offset m))
                       adjust d2
                else density_add (idx noc (dest_x m) (dest_y m) prev2) adjust d2);
          noc1 = noc\<lparr>message_density := d3\<rparr>
      in (if message_in
          then noc1\<lparr>mean_in_flight_receive_delay :=
                       mean_in_flight_receive_delay noc1
                       + (receive_delay m - mean_in_flight_receive_delay noc1)
                         / (real_of_int (messages_in_noc noc1) + 1),
                    messages_in_noc := messages_in_noc noc1 + 1\<rparr>
          else (if messages_in_noc noc1 > 1
                then noc1\<lparr>mean_in_flight_receive_delay :=
                             mean_in_flight_receive_delay noc1
                             + (mean_in_flight_receive_delay noc1 - receive_delay m)
                               / (real_of_int (messages_in_noc noc1) - 1)\<rparr>
                else noc1\<lparr>mean_in_flight_receive_delay := 0\<rparr>)
               \<lparr>messages_in_noc := messages_in_noc noc1 - 1\<rparr>))"

text \<open>
  \<^verbatim>\<open>schedule_calculate_messages_along_route\<close>; the \<^verbatim>\<open>assert\<close> at its end is the error
  \<open>Assert_flow_density\<close>.
\<close>

definition schedule_calculate_messages_along_route :: "Message \<Rightarrow> NocInfo \<Rightarrow> error + real" where
  "schedule_calculate_messages_along_route m noc =
     (let (prev1, f1) =
            for_loop (src_x m) (dest_x m) (x_increment m)
              (\<lambda>x (prev_direction, flow_density).
                 (let direction = (if x_increment m > 0 then east else west)
                  in (direction,
                      if x = src_x m
                      then flow_density
                           + message_density noc ! idx noc x (src_y m) (ndirections + src_core_offset m)
                      else flow_density + message_density noc ! idx noc x (src_y m) direction)))
              (ndirections + src_core_offset m, 0);
          (prev2, f2) =
            for_loop (src_y m) (dest_y m) (y_increment m)
              (\<lambda>y (prev_direction, flow_density).
                 (let direction = (if y_increment m > 0 then north else south)
                  in (direction,
                      if src_x m = dest_x m \<and> y = src_y m
                      then flow_density
                           + message_density noc ! idx noc (dest_x m) y (ndirections + src_core_offset m)
                      else flow_density + message_density noc ! idx noc (dest_x m) y prev_direction)))
              (prev1, f1);
          flow_density =
            (if src_x m = dest_x m \<and> src_y m = dest_y m
             then f2 + message_density noc
                         ! idx noc (dest_x m) (dest_y m) (ndirections + src_core_offset m)
             else f2 + message_density noc ! idx noc (dest_x m) (dest_y m) prev2)
      in if flow_density \<ge> - (1 / 10) then Inr flow_density else Inl Assert_flow_density)"


text \<open>
  \<^verbatim>\<open>schedule_update_noc\<close>. \<open>update_queue\<close> is the \<^verbatim>\<open>while\<close> loop over one receive queue:
  a message that is in the NoC and whose \<open>received_timestamp\<close> has passed leaves the
  NoC and the queue. \<open>update_queues\<close> is the loop over the queues.
\<close>

fun update_queue ::
  "real \<Rightarrow> mref list \<Rightarrow> (mref \<Rightarrow> Message) \<times> NocInfo \<Rightarrow> mref list \<times> (mref \<Rightarrow> Message) \<times> NocInfo" where
  "update_queue t [] (st, noc) = ([], st, noc)"
| "update_queue t (r # q) (st, noc) =
     (if in_noc (st r) \<and> t \<ge> received_timestamp (st r)
      then (let st1 = st(r := (st r)\<lparr>in_noc := False\<rparr>);
                noc1 = schedule_update_noc_message_counts (st1 r) noc False
            in update_queue t q (st1, noc1))
      else (let (q', st', noc') = update_queue t q (st, noc) in (r # q', st', noc')))"

fun update_queues ::
  "real \<Rightarrow> mref list list \<Rightarrow> (mref \<Rightarrow> Message) \<times> NocInfo
     \<Rightarrow> mref list list \<times> (mref \<Rightarrow> Message) \<times> NocInfo" where
  "update_queues t [] (st, noc) = ([], st, noc)"
| "update_queues t (q # qs) (st, noc) =
     (let (q', st1, noc1) = update_queue t q (st, noc);
          (qs', st2, noc2) = update_queues t qs (st1, noc1)
      in (q' # qs', st2, noc2))"

definition schedule_update_noc ::
  "real \<Rightarrow> (mref \<Rightarrow> Message) \<times> NocInfo \<Rightarrow> (mref \<Rightarrow> Message) \<times> NocInfo" where
  "schedule_update_noc t = (\<lambda>(st, noc).
     (let (qs', st', noc') = update_queues t (messages_received noc) (st, noc)
      in (st', noc'\<lparr>messages_received := qs'\<rparr>)))"

text \<open>
  The state of \<^verbatim>\<open>schedule_messages\<close>: the messages behind the references, the priority
  queue, the per-core queues of the messages still to send, the NoC and
  \<^verbatim>\<open>last_timestamp\<close>.

  Modelled from the spec: \<^verbatim>\<open>MessagePriorityQueue\<close> is declared in \<^verbatim>\<open>schedule.hpp\<close>. By
  the spec it is a min-heap keyed by \<open>sent_timestamp\<close> whose ties are broken by insertion
  order. The model keeps the entries in insertion order; \<open>pq_top\<close> is the first entry
  with the least \<open>sent_timestamp\<close>.
\<close>

record SchedState =
  sched_store :: "mref \<Rightarrow> Message"
  priority :: "mref list"
  messages_sent_per_core :: "mref list list"
  noc :: NocInfo
  last_timestamp :: real

fun pq_min :: "(mref \<Rightarrow> Message) \<Rightarrow> mref \<Rightarrow> mref list \<Rightarrow> mref" where
  "pq_min st best [] = best"
| "pq_min st best (r # rs) =
     (if sent_timestamp (st r) < sent_timestamp (st best) then pq_min st r rs
      else pq_min st best rs)"

definition pq_top :: "(mref \<Rightarrow> Message) \<Rightarrow> mref list \<Rightarrow> mref" where
  "pq_top st pq = pq_min st (hd pq) (tl pq)"

text \<open>
  The block of the main loop for a message that is not a placeholder (the body of
  \<^verbatim>\<open>if (!m.placeholder)\<close>); \<open>r\<close> refers to the message \<open>m\<close>.
\<close>

definition path_capacity :: "Scheduler \<Rightarrow> Message \<Rightarrow> nat" where
  "path_capacity sched m = ((hops m + 1) * buffer_size sched) mod 2 ^ 64"

definition schedule_send ::
  "Scheduler \<Rightarrow> mref \<Rightarrow> (mref \<Rightarrow> Message) \<times> NocInfo \<times> real
     \<Rightarrow> error + (mref \<Rightarrow> Message) \<times> NocInfo \<times> real" where
  "schedule_send sched r = (\<lambda>(st, noc, last).
     (let m = st r;
          dest_core = dest_core_id m
      in case schedule_calculate_messages_along_route m noc of
           Inl e \<Rightarrow> Inl e
         | Inr messages_along_route \<Rightarrow>
             (let m1 = (if messages_along_route > real (path_capacity sched m)
                        then m\<lparr>sent_timestamp := sent_timestamp m
                                 + (messages_along_route - real (path_capacity sched m))
                                   * mean_in_flight_receive_delay noc\<rparr>
                        else m);
                  m2 = m1\<lparr>in_noc := True\<rparr>
              in if \<not> (0 \<le> dest_core \<and> nat dest_core < length (messages_received noc))
                 then Inl Out_of_range
                 else
                   (let noc1 = noc\<lparr>messages_received := (messages_received noc)
                                  [nat dest_core := messages_received noc ! nat dest_core @ [r]]\<rparr>;
                        noc2 = schedule_update_noc_message_counts m2 noc1 True;
                        network_delay' = messages_along_route * mean_in_flight_receive_delay noc2
                                         / (real (hops m2) + 1);
                        earliest_received_time =
                          sent_timestamp m2 + max (network_delay m2) network_delay'
                    in if \<not> nat dest_core < length (core_finished_receiving noc2)
                       then Inl Out_of_range
                       else
                         (let m3 = m2\<lparr>received_timestamp :=
                                        max (core_finished_receiving noc2 ! nat dest_core)
                                            earliest_received_time\<rparr>;
                              noc3 = noc2\<lparr>core_finished_receiving := (core_finished_receiving noc2)
                                       [nat dest_core :=
                                          max (core_finished_receiving noc2 ! nat dest_core
                                               + receive_delay m3)
                                              (earliest_received_time + receive_delay m3)]\<rparr>;
                              m4 = m3\<lparr>processed_timestamp :=
                                        core_finished_receiving noc3 ! nat dest_core\<rparr>
                          in Inr (st(r := m4), noc3, max last (processed_timestamp m4)))))))"

text \<open>
  The end of a turn of the main loop (\<^verbatim>\<open>// Get the next message for this core\<close>): \<open>r\<close>
  refers to the message \<open>m\<close> of this turn, \<open>pq\<close> is the priority queue after the pop.
\<close>

definition schedule_next ::
  "mref \<Rightarrow> mref list \<Rightarrow> SchedState \<Rightarrow> (mref \<Rightarrow> Message) \<times> NocInfo \<times> real
     \<Rightarrow> error + SchedState" where
  "schedule_next r pq s = (\<lambda>(st2, noc2, last2).
     (let src_core = src_core_id (st2 r)
      in if \<not> (0 \<le> src_core \<and> nat src_core < length (messages_sent_per_core s))
         then Inl Out_of_range
         else
           (case messages_sent_per_core s ! nat src_core of
              [] \<Rightarrow>
                Inr (s\<lparr>sched_store := st2, priority := pq, noc := noc2,
                        last_timestamp := last2\<rparr>)
            | nxt # q \<Rightarrow>
                (let next_message = (st2 nxt)\<lparr>sent_timestamp :=
                       sent_timestamp (st2 r) + generation_delay (st2 nxt)\<rparr>
                 in Inr (s\<lparr>sched_store := st2(nxt := next_message),
                           priority := pq @ [nxt],
                           messages_sent_per_core :=
                             (messages_sent_per_core s)[nat src_core := q],
                           noc := noc2,
                           last_timestamp := max last2 (sent_timestamp next_message)\<rparr>)))))"

text \<open>One turn of the \<^verbatim>\<open>while (!priority.empty())\<close> loop.\<close>

definition schedule_step :: "Scheduler \<Rightarrow> SchedState \<Rightarrow> error + SchedState" where
  "schedule_step sched s =
     (let r = pq_top (sched_store s) (priority s);
          pq = remove1 r (priority s);
          last1 = max (last_timestamp s) (sent_timestamp (sched_store s r));
          (st1, noc1) = schedule_update_noc (sent_timestamp (sched_store s r)) (sched_store s, noc s)
      in case (if \<not> placeholder (st1 r) then schedule_send sched r (st1, noc1, last1)
               else Inr (st1, noc1, last1)) of
           Inl e \<Rightarrow> Inl e
         | Inr x \<Rightarrow> schedule_next r pq s x)"

text \<open>The number of messages that are still to be popped.\<close>

definition pending :: "SchedState \<Rightarrow> nat" where
  "pending s = length (priority s) + length (concat (messages_sent_per_core s))"

lemma pq_min_in: "pq_min st best rs \<in> set (best # rs)"
  by (induction rs arbitrary: best) auto

lemma pq_top_in: "pq \<noteq> [] \<Longrightarrow> pq_top st pq \<in> set pq"
  using pq_min_in[of st "hd pq" "tl pq"] by (cases pq) (simp_all add: pq_top_def)

lemma length_concat_update:
  assumes "i < length qs" and "qs ! i = x # q"
  shows "length (concat (qs[i := q])) + 1 = length (concat qs)"
proof -
  have a: "qs = take i qs @ (x # q) # drop (Suc i) qs"
    using assms by (metis id_take_nth_drop)
  have b: "qs[i := q] = take i qs @ q # drop (Suc i) qs"
    using assms(1) by (simp add: upd_conv_take_nth_drop)
  have "length (concat qs) = length (concat (take i qs)) + (1 + length q)
      + length (concat (drop (Suc i) qs))"
    by (subst a) simp
  moreover have "length (concat (qs[i := q])) = length (concat (take i qs)) + length q
      + length (concat (drop (Suc i) qs))"
    by (subst b) simp
  ultimately show ?thesis by simp
qed

lemma schedule_next_pending:
  assumes "schedule_next r pq s x = Inr s'"
  shows "pending s' = length pq + length (concat (messages_sent_per_core s))"
proof -
  obtain st2 noc2 last2 where x: "x = (st2, noc2, last2)" by (cases x)
  define i where "i = nat (src_core_id (st2 r))"
  have range: "i < length (messages_sent_per_core s)"
    using assms by (auto simp add: schedule_next_def x i_def Let_def split: if_splits)
  show ?thesis
  proof (cases "messages_sent_per_core s ! i")
    case Nil
    then show ?thesis
      using assms range
      by (auto simp add: schedule_next_def x i_def[symmetric] Let_def pending_def split: if_splits)
  next
    case (Cons nxt q)
    have "length (concat ((messages_sent_per_core s)[i := q])) + 1
        = length (concat (messages_sent_per_core s))"
      using range Cons by (rule length_concat_update)
    then show ?thesis
      using assms range Cons
      by (auto simp add: schedule_next_def x i_def[symmetric] Let_def pending_def split: if_splits)
  qed
qed

lemma schedule_step_pending:
  assumes "schedule_step sched s = Inr s'" and "priority s \<noteq> []"
  shows "pending s' < pending s"
proof -
  define r where "r = pq_top (sched_store s) (priority s)"
  have "r \<in> set (priority s)"
    unfolding r_def using assms(2) by (rule pq_top_in)
  then have len: "length (remove1 r (priority s)) < length (priority s)"
    using assms(2) by (simp add: length_remove1)
  obtain x where "schedule_next r (remove1 r (priority s)) s x = Inr s'"
    using assms(1)
    by (auto simp add: schedule_step_def r_def[symmetric] Let_def split: prod.splits sum.splits)
  from schedule_next_pending[OF this] show ?thesis
    using len by (simp add: pending_def)
qed

function schedule_loop :: "Scheduler \<Rightarrow> SchedState \<Rightarrow> error + SchedState" where
  "schedule_loop sched s =
     (if priority s = [] then Inr s
      else (case schedule_step sched s of
              Inl e \<Rightarrow> Inl e
            | Inr s' \<Rightarrow> schedule_loop sched s'))"
  by pat_completeness auto
termination
  by (relation "measure (\<lambda>(sched, s). pending s)") (auto simp add: schedule_step_pending)


text \<open>
  \<^verbatim>\<open>schedule_init_timing_priority\<close>: the first message of every per-core queue that is
  not empty goes into the priority queue, with \<open>sent_timestamp = generation_delay\<close>.
\<close>

fun init_queues ::
  "mref list list \<Rightarrow> (mref \<Rightarrow> Message) \<times> mref list
     \<Rightarrow> mref list list \<times> (mref \<Rightarrow> Message) \<times> mref list" where
  "init_queues [] (st, pq) = ([], st, pq)"
| "init_queues ([] # qs) (st, pq) =
     (let (qs', st', pq') = init_queues qs (st, pq) in ([] # qs', st', pq'))"
| "init_queues ((r # q) # qs) (st, pq) =
     (let st1 = st(r := (st r)\<lparr>sent_timestamp := generation_delay (st r)\<rparr>);
          (qs', st', pq') = init_queues qs (st1, pq @ [r])
      in (q # qs', st', pq'))"

definition schedule_init_timing_priority ::
  "mref list list \<Rightarrow> (mref \<Rightarrow> Message) \<Rightarrow> mref list list \<times> (mref \<Rightarrow> Message) \<times> mref list" where
  "schedule_init_timing_priority message_queues_per_core st =
     init_queues message_queues_per_core (st, [])"

text \<open>
  \<^verbatim>\<open>schedule_messages\<close>. The argument \<open>msgs\<close> is the vector \<^verbatim>\<open>messages\<close> of per-core
  message lists; the result is the returned \<^verbatim>\<open>last_timestamp\<close> together with the messages as
  the scheduler leaves them. Filling \<^verbatim>\<open>messages_sent_per_core\<close>, which has
  \<open>core_count\<close> entries, from a longer vector of lists is an access out of range as soon
  as one of the lists beyond \<open>core_count\<close> holds a message.
\<close>

definition message_refs :: "Message list list \<Rightarrow> nat \<Rightarrow> mref list" where
  "message_refs msgs c = map (\<lambda>i. (c, i)) [0..<length (msgs ! c)]"

definition initial_store :: "Message list list \<Rightarrow> mref \<Rightarrow> Message" where
  "initial_store msgs = (\<lambda>(c, i). msgs ! c ! i)"

definition scheduled_messages :: "(mref \<Rightarrow> Message) \<Rightarrow> Message list list \<Rightarrow> Message list list" where
  "scheduled_messages st msgs =
     map (\<lambda>c. map (\<lambda>i. st (c, i)) [0..<length (msgs ! c)]) [0..<length msgs]"

definition initial_noc :: "Scheduler \<Rightarrow> NocInfo" where
  "initial_noc sched =
     \<lparr>noc_width = noc_width sched, noc_height = noc_height sched,
      core_count = core_count sched, max_cores_per_tile = max_cores_per_tile sched,
      message_density =
        replicate (nat (noc_height sched * noc_width sched
                        * (ndirections + int (max_cores_per_tile sched)))) 0,
      messages_received = replicate (core_count sched) [],
      core_finished_receiving = replicate (core_count sched) 0,
      mean_in_flight_receive_delay = 0,
      messages_in_noc = 0\<rparr>"

definition initial_state :: "Message list list \<Rightarrow> Scheduler \<Rightarrow> SchedState" where
  "initial_state msgs sched =
     (let messages_sent = map (\<lambda>c. if c < length msgs then message_refs msgs c
                                         else [])
                            [0..<core_count sched];
          (queues, st, pq) = schedule_init_timing_priority messages_sent (initial_store msgs)
      in \<lparr>sched_store = st, priority = pq, messages_sent_per_core = queues,
          noc = initial_noc sched, last_timestamp = 0\<rparr>)"

definition schedule_messages ::
  "Message list list \<Rightarrow> Scheduler \<Rightarrow> error + real \<times> Message list list" where
  "schedule_messages msgs sched =
     (if list_ex (\<lambda>c. msgs ! c \<noteq> []) [core_count sched..<length msgs]
      then Inl Out_of_range
      else (case schedule_loop sched (initial_state msgs sched) of
              Inl e \<Rightarrow> Inl e
            | Inr s \<Rightarrow> Inr (last_timestamp s, scheduled_messages (sched_store s) msgs)))"

subsection \<open>Notions used in the statements\<close>

text \<open>
  The fields of a neuron that the mapping fixes: the core it is mapped to, the hardware
  units it points to, its out-axons and its id.
\<close>

definition neuron_wiring :: "('dm, 'sm) Neuron \<Rightarrow> nat \<times> nat \<times> nat \<times> int list \<times> nat" where
  "neuron_wiring n = (core n, soma_hw n, axon_out_hw n, axon_out_addresses n, neuron_id n)"

text \<open>
  \<^verbatim>\<open>n.core->id\<close>, \<^verbatim>\<open>n.core->next_message_generation_delay\<close> and
  \<^verbatim>\<open>n.axon_out_hw->latency_access\<close> for the neuron at address \<open>n\<close>; \<open>spike_delays\<close> are
  the generation delays of the messages that one firing neuron sends: the accumulated
  delay goes into the first message only.
\<close>

definition queue_index :: "('ym, 'dm, 'sm) Architecture \<Rightarrow> nat \<Rightarrow> nat" where
  "queue_index arch n = core_id (cores arch (core (neuron_at arch n)))"

definition accumulated_delay :: "('ym, 'dm, 'sm) Architecture \<Rightarrow> nat \<Rightarrow> real" where
  "accumulated_delay arch n = next_message_generation_delay (cores arch (core (neuron_at arch n)))"

definition axon_out_latency :: "('ym, 'dm, 'sm) Architecture \<Rightarrow> nat \<Rightarrow> real" where
  "axon_out_latency arch n = latency_access (axon_out_unit_at arch (axon_out_hw (neuron_at arch n)))"

definition spike_delays :: "real \<Rightarrow> real \<Rightarrow> int list \<Rightarrow> real list" where
  "spike_delays acc la as =
     (case as of [] \<Rightarrow> [] | _ # r \<Rightarrow> (acc + la) # replicate (length r) la)"

definition example_message :: Message where
  "example_message =
     \<lparr>generation_delay = 0, network_delay = 0, receive_delay = 0, blocked_delay = 0,
      sent_timestamp = 0, received_timestamp = 0, processed_timestamp = 0, timestep = 0,
      spikes = 0, hops = 0, src_neuron_id = 0, src_neuron_group_id = [], src_x = 0,
      dest_x = 0, src_y = 0, dest_y = 0, src_tile_id = 0, src_core_id = 0,
      src_core_offset = 0, dest_tile_id = 0, dest_core_id = 0, dest_core_offset = 0,
      dest_axon_hw = 0, dest_axon_id = 0, placeholder = True, in_noc = False\<rparr>"

definition example_models :: "(unit, unit, unit) Models" where
  "example_models =
     \<lparr>synapse_update = (\<lambda>s a. (1, s)),
      dendrite_update = (\<lambda>s y. (case y of None \<Rightarrow> 0 | Some v \<Rightarrow> current v, s)),
      soma_update = (\<lambda>s c. (IDLE, s)),
      message_fields = (\<lambda>n a. example_message)\<rparr>"

definition example_neuron :: "(unit, unit) Neuron" where
  "example_neuron =
     \<lparr>neuron_id = 7, axon_out_addresses = [0, 1], core = 0, soma_hw = 0, axon_out_hw = 0,
      dendrite_model = (), soma_model = (), spike_count = 0, forced_spikes = 1,
      status = IDLE, dendrite_input_synapses = [], soma_input_charge = 0,
      axon_out_input_spike = False, soma_last_updated = 0, dendrite_last_updated = 0\<rparr>"

definition example_core :: Core where
  "example_core =
     \<lparr>neurons = [0], next_message_generation_delay = 0, core_id = 0,
      timestep_buffer_pos = BUFFER_BEFORE_SOMA_UNIT,
      axon_in_hw = [\<lparr>spike_messages_in = 0, latency_spike_message = 16\<rparr>],
      axons_in = [\<lparr>synapse_addresses = [0]\<rparr>], connections_in = [0]\<rparr>"

definition example_arch :: "(unit, unit, unit) Architecture" where
  "example_arch =
     \<lparr>cores = (\<lambda>a. example_core),
      neuron_at = (\<lambda>a. example_neuron),
      connection_at = (\<lambda>a. \<lparr>post_neuron = 0, synapse_hw = Some 0, synapse_model = (),
                              con_dendrite_params = [], last_updated = 0\<rparr>),
      soma_unit_at = (\<lambda>a. \<lparr>neuron_updates = 0, neurons_fired = 0, latency_access_neuron = 1,
                             latency_update_neuron = 2, latency_spiking = 4\<rparr>),
      axon_out_unit_at = (\<lambda>a. \<lparr>packets_out = 0, latency_access = 8\<rparr>),
      synapse_unit_at = (\<lambda>a. \<lparr>spikes_processed = 0, latency_spike_op = 32\<rparr>)\<rparr>"

definition example_ts :: Timestep where
  "example_ts = \<lparr>messages = [[]], ts_timestep = 1\<rparr>"

definition units_frame ::
  "('ym, 'dm, 'sm) Architecture \<Rightarrow> ('ym, 'dm, 'sm) Architecture \<Rightarrow> bool" where
  "units_frame arch arch' \<longleftrightarrow>
     cores arch' = cores arch \<and> axon_out_unit_at arch' = axon_out_unit_at arch
     \<and> connection_at arch' = connection_at arch \<and> synapse_unit_at arch' = synapse_unit_at arch
     \<and> (\<forall>k. neuron_wiring (neuron_at arch' k) = neuron_wiring (neuron_at arch k))"

fun reported_latencies ::
  "('ym, 'dm, 'sm) Models \<Rightarrow> nat list \<Rightarrow> Timestep \<times> ('ym, 'dm, 'sm) Architecture \<Rightarrow> real list" where
  "reported_latencies M [] s = []"
| "reported_latencies M (n # ns) s =
     fst (neuron_units M n s) # reported_latencies M ns (pipeline_process_neuron M n s)"

definition messages_sent ::
  "('ym, 'dm, 'sm) Models \<Rightarrow> nat \<Rightarrow> Timestep \<times> ('ym, 'dm, 'sm) Architecture \<Rightarrow> nat" where
  "messages_sent M n s =
     length (messages (fst (pipeline_process_neuron M n s)) ! queue_index (snd s) n)
     - length (messages (fst s) ! queue_index (snd s) n)"

fun repeated_axon_access ::
  "('ym, 'dm, 'sm) Models \<Rightarrow> nat list \<Rightarrow> Timestep \<times> ('ym, 'dm, 'sm) Architecture \<Rightarrow> real" where
  "repeated_axon_access M [] s = 0"
| "repeated_axon_access M (n # ns) s =
     real (messages_sent M n s) * axon_out_latency (snd s) n
     + repeated_axon_access M ns (pipeline_process_neuron M n s)"

text \<open>The send side up to the axon-out unit: dendrite and soma, each run or skipped.\<close>

definition before_axon_out ::
  "('ym, 'dm, 'sm) Models \<Rightarrow> Timestep \<Rightarrow> nat \<Rightarrow> ('ym, 'dm, 'sm) Architecture
     \<Rightarrow> real \<times> ('ym, 'dm, 'sm) Architecture" where
  "before_axon_out M ts n arch =
     (let (l1, arch1) =
            (if buffer_pos_of arch n \<le> BUFFER_BEFORE_DENDRITE_UNIT
             then (let (l, a) = pipeline_process_dendrite M ts n arch in (0 + l, a))
             else (0, arch))
      in (if buffer_pos_of arch1 n \<le> BUFFER_BEFORE_SOMA_UNIT
          then (let (l, a) = pipeline_process_soma M ts n arch1 in (l1 + l, a))
          else (l1, arch1)))"

definition core_extends ::
  "nat \<Rightarrow> Timestep \<times> ('ym, 'dm, 'sm) Architecture \<Rightarrow> Timestep \<times> ('ym, 'dm, 'sm) Architecture
     \<Rightarrow> Message list \<Rightarrow> bool" where
  "core_extends c s s' ms \<longleftrightarrow>
     (\<forall>k. neuron_wiring (neuron_at (snd s') k) = neuron_wiring (neuron_at (snd s) k))
     \<and> connection_at (snd s') = connection_at (snd s)
     \<and> synapse_unit_at (snd s') = synapse_unit_at (snd s)
     \<and> (\<forall>k. k \<noteq> c \<longrightarrow> cores (snd s') k = cores (snd s) k)
     \<and> (cores (snd s') c)\<lparr>next_message_generation_delay := 0\<rparr>
         = (cores (snd s) c)\<lparr>next_message_generation_delay := 0\<rparr>
     \<and> (\<forall>k. latency_access (axon_out_unit_at (snd s') k)
             = latency_access (axon_out_unit_at (snd s) k))
     \<and> length (messages (fst s')) = length (messages (fst s))
     \<and> ts_timestep (fst s') = ts_timestep (fst s)
     \<and> (\<forall>j. j \<noteq> core_id (cores (snd s) c) \<longrightarrow> messages (fst s') ! j = messages (fst s) ! j)
     \<and> messages (fst s') ! core_id (cores (snd s) c)
         = messages (fst s) ! core_id (cores (snd s) c) @ ms
     \<and> (\<forall>m \<in> set ms. \<not> placeholder m)"

text \<open>The three ways through the body of the receive loop, written as compositions.\<close>

definition synapse_only ::
  "('ym, 'dm, 'sm) Models \<Rightarrow> Timestep \<Rightarrow> nat \<Rightarrow> int \<Rightarrow> real \<times> ('ym, 'dm, 'sm) Architecture
     \<Rightarrow> error + real \<times> ('ym, 'dm, 'sm) Architecture" where
  "synapse_only M ts con a = (\<lambda>(l, arch).
     (case pipeline_process_synapse M ts con a arch of
        Inl e \<Rightarrow> Inl e
      | Inr (l_syn, arch1) \<Rightarrow> Inr (l + l_syn, arch1)))"

definition then_dendrite ::
  "('ym, 'dm, 'sm) Models \<Rightarrow> Timestep \<Rightarrow> nat \<Rightarrow> error + real \<times> ('ym, 'dm, 'sm) Architecture
     \<Rightarrow> error + real \<times> ('ym, 'dm, 'sm) Architecture" where
  "then_dendrite M ts con r =
     (case r of
        Inl e \<Rightarrow> Inl e
      | Inr (l, arch1) \<Rightarrow>
          (let (l_den, arch2) =
                 pipeline_process_dendrite M ts (post_neuron (connection_at arch1 con)) arch1
           in Inr (l + l_den, arch2)))"

definition then_soma ::
  "('ym, 'dm, 'sm) Models \<Rightarrow> Timestep \<Rightarrow> nat \<Rightarrow> error + real \<times> ('ym, 'dm, 'sm) Architecture
     \<Rightarrow> error + real \<times> ('ym, 'dm, 'sm) Architecture" where
  "then_soma M ts n r =
     (case r of
        Inl e \<Rightarrow> Inl e
      | Inr (l, arch2) \<Rightarrow>
          (let (l_soma, arch3) = pipeline_process_soma M ts n arch2
           in Inr (l + l_soma, arch3)))"

definition example_arch_spiking :: "(unit, unit, unit) Architecture" where
  "example_arch_spiking =
     example_arch\<lparr>cores := (\<lambda>a. example_core\<lparr>next_message_generation_delay := 5\<rparr>),
                  neuron_at := (\<lambda>a. example_neuron\<lparr>axon_out_input_spike := True\<rparr>)\<rparr>"

definition example_arch_before_dendrite :: "(unit, unit, unit) Architecture" where
  "example_arch_before_dendrite =
     example_arch\<lparr>cores := (\<lambda>a. example_core\<lparr>timestep_buffer_pos := BUFFER_BEFORE_DENDRITE_UNIT\<rparr>)\<rparr>"

text \<open>A scheduler configuration and two messages for the examples.\<close>

definition example_sched :: Scheduler where
  "example_sched =
     \<lparr>noc_width = 3, noc_height = 1, core_count = 6, max_cores_per_tile = 2, buffer_size = 1\<rparr>"

definition example_spike :: Message where
  "example_spike =
     example_message\<lparr>generation_delay := 1, network_delay := 2, receive_delay := 3, hops := 2,
                     src_x := 0, dest_x := 2, src_core_id := 0, src_core_offset := 0,
                     dest_tile_id := 2, dest_core_id := 5, dest_core_offset := 1,
                     placeholder := False\<rparr>"

definition example_placeholder :: Message where
  "example_placeholder = example_message\<lparr>generation_delay := 100, src_core_id := 1\<rparr>"

text \<open>All of a message but the flag \<open>in_noc\<close>.\<close>

definition but_in_noc :: "Message \<Rightarrow> Message" where
  "but_in_noc m = m\<lparr>in_noc := False\<rparr>"

definition example_congested :: SchedState where
  "example_congested =
     \<lparr>sched_store = initial_store [[example_spike\<lparr>sent_timestamp := 1\<rparr>]],
      priority = [(0, 0)],
      messages_sent_per_core = replicate 6 [],
      noc = (initial_noc example_sched)
              \<lparr>message_density := replicate 18 2, mean_in_flight_receive_delay := 5,
               messages_in_noc := 8\<rparr>,
      last_timestamp = 0\<rparr>"

text \<open>
  What the scheduler never writes: all of a message but its three timestamps and the
  flag \<open>in_noc\<close>.
\<close>

definition static :: "Message \<Rightarrow> Message" where
  "static m = m\<lparr>sent_timestamp := 0, received_timestamp := 0, processed_timestamp := 0,
               in_noc := False\<rparr>"

definition timestamps_ordered :: "Message \<Rightarrow> bool" where
  "timestamps_ordered m \<longleftrightarrow>
     sent_timestamp m \<le> received_timestamp m \<and> received_timestamp m \<le> processed_timestamp m"

text \<open>The references to the messages of the argument of \<open>schedule_messages\<close>.\<close>

definition valid_refs :: "Message list list \<Rightarrow> mref set" where
  "valid_refs msgs = {(c, i). c < length msgs \<and> i < length (msgs ! c)}"

text \<open>The messages that wait for their turn: in the priority queue or in a per-core queue.\<close>

definition waiting :: "SchedState \<Rightarrow> mref list" where
  "waiting s = priority s @ concat (messages_sent_per_core s)"

text \<open>
  The invariant of the main loop behind C7: the waiting references are distinct and refer
  to messages of the argument, the scheduler has written nothing but timestamps and
  \<open>in_noc\<close>, and every message that is not in the priority queue and is not a placeholder
  has its timestamps in order.
\<close>

definition ordered_inv :: "Message list list \<Rightarrow> SchedState \<Rightarrow> bool" where
  "ordered_inv msgs s \<longleftrightarrow>
     distinct (waiting s)
     \<and> set (waiting s) \<subseteq> valid_refs msgs
     \<and> (\<forall>x. static (sched_store s x) = static (initial_store msgs x))
     \<and> (\<forall>x \<in> valid_refs msgs. x \<notin> set (priority s) \<longrightarrow> \<not> placeholder (sched_store s x)
           \<longrightarrow> timestamps_ordered (sched_store s x))"

text \<open>
  A run of the scheduler: two spike messages of core 0 and a placeholder of core 1.
\<close>

definition example_run :: "Message list list" where
  "example_run = [[example_spike, example_spike], [example_placeholder]]"

text \<open>
  The bookkeeping of the messages in flight: \<open>messages_in_noc\<close> counts the entries of the
  receive queues, and \<open>mean_in_flight_receive_delay\<close> is the mean of their receive delays
  (zero when there is none). \<open>rd\<close> gives the receive delay of the message behind a
  reference.
\<close>

definition mean_inv :: "(mref \<Rightarrow> real) \<Rightarrow> NocInfo \<Rightarrow> mref multiset \<Rightarrow> bool" where
  "mean_inv rd nc M \<longleftrightarrow>
     messages_in_noc nc = int (size M)
     \<and> mean_in_flight_receive_delay nc * real (size M) = (\<Sum>r\<in>#M. rd r)
     \<and> (M = {#} \<longrightarrow> mean_in_flight_receive_delay nc = 0)"

text \<open>
  The time at which a message is done: a placeholder when it is sent, any other message
  when the receiving core has processed it.
\<close>

definition finish_time :: "Message \<Rightarrow> real" where
  "finish_time m = (if placeholder m then sent_timestamp m else processed_timestamp m)"

text \<open>
  The invariants of the main loop behind C2. \<open>refs_inv\<close>: the waiting references are
  distinct, refer to messages of the argument, and the scheduler has written nothing but
  timestamps and \<open>in_noc\<close>. \<open>chain_inv\<close>: the queue of core \<open>c\<close> holds messages of the
  list \<open>c\<close> of the argument, and as long as it is not empty a message of that list is in
  the priority queue. \<open>in_flight_inv\<close>: the bookkeeping of the messages in flight.
  \<open>bound_inv\<close>: \<^verbatim>\<open>last_timestamp\<close> is at least zero and at least the finish time of every
  message popped so far, and it is zero, or the finish time of a popped message, or at
  most the \<open>sent_timestamp\<close> of a message in the priority queue.
\<close>

definition refs_inv :: "Message list list \<Rightarrow> SchedState \<Rightarrow> bool" where
  "refs_inv msgs s \<longleftrightarrow>
     distinct (waiting s)
     \<and> set (waiting s) \<subseteq> valid_refs msgs
     \<and> (\<forall>x. static (sched_store s x) = static (initial_store msgs x))"

definition chain_inv :: "SchedState \<Rightarrow> bool" where
  "chain_inv s \<longleftrightarrow>
     (\<forall>c < length (messages_sent_per_core s). \<forall>x \<in> set (messages_sent_per_core s ! c). fst x = c)
     \<and> (\<forall>c < length (messages_sent_per_core s). messages_sent_per_core s ! c \<noteq> []
           \<longrightarrow> (\<exists>x \<in> set (priority s). fst x = c))"

definition in_flight_inv :: "Message list list \<Rightarrow> SchedState \<Rightarrow> bool" where
  "in_flight_inv msgs s \<longleftrightarrow>
     mean_inv (\<lambda>x. receive_delay (initial_store msgs x)) (noc s)
       (mset (concat (messages_received (noc s))))
     \<and> set (concat (messages_received (noc s))) \<subseteq> valid_refs msgs"

definition bound_inv :: "Message list list \<Rightarrow> SchedState \<Rightarrow> bool" where
  "bound_inv msgs s \<longleftrightarrow>
     0 \<le> last_timestamp s
     \<and> (\<forall>x \<in> valid_refs msgs. x \<notin> set (waiting s)
           \<longrightarrow> finish_time (sched_store s x) \<le> last_timestamp s)
     \<and> (last_timestamp s = 0
         \<or> (\<exists>x \<in> valid_refs msgs. x \<notin> set (waiting s)
               \<and> last_timestamp s = finish_time (sched_store s x))
         \<or> (\<exists>x \<in> set (priority s). last_timestamp s \<le> sent_timestamp (sched_store s x)))"

text \<open>
  A run in which the link of a core is crowded by the core's own messages: three
  messages that core 5 (tile 2, offset 1) sends to itself, and one message of core 4
  (tile 2, offset 0) for core 5. \<open>schedule_turns n\<close> is \<open>n\<close> turns of the main loop of
  \<^verbatim>\<open>schedule_messages\<close>.
\<close>

definition example_local :: Message where
  "example_local =
     example_message\<lparr>generation_delay := 1, network_delay := 100, receive_delay := 3, hops := 0,
                     src_x := 2, dest_x := 2, src_tile_id := 2, src_core_id := 5,
                     src_core_offset := 1, dest_tile_id := 2, dest_core_id := 5,
                     dest_core_offset := 1, placeholder := False\<rparr>"

definition example_blocked :: Message where
  "example_blocked =
     example_message\<lparr>generation_delay := 10, network_delay := 1, receive_delay := 3, hops := 0,
                     src_x := 2, dest_x := 2, src_tile_id := 2, src_core_id := 4,
                     src_core_offset := 0, dest_tile_id := 2, dest_core_id := 5,
                     dest_core_offset := 1, placeholder := False\<rparr>"

definition example_crowded_run :: "Message list list" where
  "example_crowded_run =
     [[], [], [], [], [example_blocked], [example_local, example_local, example_local]]"

fun schedule_turns :: "nat \<Rightarrow> Scheduler \<Rightarrow> SchedState \<Rightarrow> error + SchedState" where
  "schedule_turns 0 sched s = Inr s"
| "schedule_turns (Suc n) sched s =
     (case schedule_step sched s of Inl e \<Rightarrow> Inl e | Inr s' \<Rightarrow> schedule_turns n sched s')"

section \<open>Properties of the pipeline\<close>

declare dendrite_catch_up.simps [simp del] soma_loop.simps [simp del] synapse_catch_up.simps [simp del]

subsection \<open>What each unit changes\<close>

lemma wiring_dendrite_catch_up:
  "neuron_wiring (dendrite_catch_up M t n) = neuron_wiring n"
proof (induction M t n rule: dendrite_catch_up.induct)
  case (1 M t n)
  show ?case
  proof (cases "dendrite_last_updated n < t")
    case True
    then show ?thesis
      using 1[OF True] by (subst dendrite_catch_up.simps) (simp add: neuron_wiring_def)
  next
    case False
    then show ?thesis by (subst dendrite_catch_up.simps) simp
  qed
qed

lemma wiring_dendrite_integrate:
  "neuron_wiring (fold (dendrite_integrate M) syns n) = neuron_wiring n"
  by (induction syns arbitrary: n) (simp_all add: dendrite_integrate_def neuron_wiring_def)

lemma wiring_soma_step:
  "neuron_wiring (fst (soma_step M (n, hw, l))) = neuron_wiring n"
  by (simp add: soma_step_def neuron_wiring_def Let_def split: prod.splits if_splits)

lemma wiring_soma_loop:
  "neuron_wiring (fst (soma_loop M t s)) = neuron_wiring (fst s)"
proof (induction M t s rule: soma_loop.induct)
  case (1 M t s)
  show ?case
  proof (cases "soma_last_updated (fst s) < t")
    case True
    obtain n hw l where s: "s = (n, hw, l)" by (cases s)
    show ?thesis
      using 1[OF True] True by (subst soma_loop.simps) (simp add: s wiring_soma_step)
  next
    case False
    then show ?thesis by (subst soma_loop.simps) simp
  qed
qed

text \<open>What the dendrite and the soma leave alone.\<close>

lemma pipeline_process_dendrite_frame:
  assumes "pipeline_process_dendrite M ts n arch = (l, arch')"
  shows "l = 0" and "cores arch' = cores arch"
    and "axon_out_unit_at arch' = axon_out_unit_at arch"
    and "soma_unit_at arch' = soma_unit_at arch"
    and "connection_at arch' = connection_at arch"
    and "synapse_unit_at arch' = synapse_unit_at arch"
    and "neuron_wiring (neuron_at arch' k) = neuron_wiring (neuron_at arch k)"
proof -
  define n1 where "n1 = dendrite_catch_up M (ts_timestep ts) (neuron_at arch n)"
  define n2 where "n2 = fold (dendrite_integrate M) (dendrite_input_synapses n1) n1"
  have arch': "arch' = arch\<lparr>neuron_at := (neuron_at arch)(n := n2\<lparr>dendrite_input_synapses := []\<rparr>)\<rparr>"
    and l: "l = 0"
    using assms by (simp_all add: pipeline_process_dendrite_def Let_def n1_def n2_def)
  have "neuron_wiring (n2\<lparr>dendrite_input_synapses := []\<rparr>) = neuron_wiring n2"
    by (simp add: neuron_wiring_def)
  also have "\<dots> = neuron_wiring (neuron_at arch n)"
    by (simp add: n2_def n1_def wiring_dendrite_integrate wiring_dendrite_catch_up)
  finally show "neuron_wiring (neuron_at arch' k) = neuron_wiring (neuron_at arch k)"
    by (simp add: arch')
  show "l = 0" by (rule l)
  show "cores arch' = cores arch" "axon_out_unit_at arch' = axon_out_unit_at arch"
    "soma_unit_at arch' = soma_unit_at arch"
    "connection_at arch' = connection_at arch" "synapse_unit_at arch' = synapse_unit_at arch"
    by (simp_all add: arch')
qed

lemma pipeline_process_soma_frame:
  assumes "pipeline_process_soma M ts n arch = (l, arch')"
  shows "cores arch' = cores arch"
    and "axon_out_unit_at arch' = axon_out_unit_at arch"
    and "connection_at arch' = connection_at arch"
    and "synapse_unit_at arch' = synapse_unit_at arch"
    and "neuron_wiring (neuron_at arch' k) = neuron_wiring (neuron_at arch k)"
proof -
  obtain nrn' hw' l' where
    loop: "soma_loop M (ts_timestep ts) (neuron_at arch n, soma_unit_at arch (soma_hw (neuron_at arch n)), 0)
            = (nrn', hw', l')"
    by (cases "soma_loop M (ts_timestep ts) (neuron_at arch n, soma_unit_at arch (soma_hw (neuron_at arch n)), 0)")
  have arch': "arch' = arch\<lparr>neuron_at := (neuron_at arch)(n := nrn'),
               soma_unit_at := (soma_unit_at arch)(soma_hw (neuron_at arch n) := hw')\<rparr>"
    using assms loop by (simp add: pipeline_process_soma_def Let_def)
  have "neuron_wiring nrn' = neuron_wiring (neuron_at arch n)"
    using wiring_soma_loop[of M "ts_timestep ts" "(neuron_at arch n, soma_unit_at arch (soma_hw (neuron_at arch n)), 0)"]
    by (simp add: loop)
  then show "neuron_wiring (neuron_at arch' k) = neuron_wiring (neuron_at arch k)"
    by (simp add: arch')
  show "cores arch' = cores arch" "axon_out_unit_at arch' = axon_out_unit_at arch"
    "connection_at arch' = connection_at arch" "synapse_unit_at arch' = synapse_unit_at arch"
    by (simp_all add: arch')
qed


lemma axon_out_send_effect:
  assumes "axon_out_send M n a (ts, arch) = (ts', arch')"
  shows "neuron_at arch' = neuron_at arch"
    and "soma_unit_at arch' = soma_unit_at arch"
    and "connection_at arch' = connection_at arch"
    and "synapse_unit_at arch' = synapse_unit_at arch"
    and "cores arch' = (cores arch)(core (neuron_at arch n) :=
           (cores arch (core (neuron_at arch n)))\<lparr>next_message_generation_delay := 0\<rparr>)"
    and "latency_access (axon_out_unit_at arch' k) = latency_access (axon_out_unit_at arch k)"
    and "\<exists>m. ts' = push_message (core_id (cores arch (core (neuron_at arch n)))) m ts
           \<and> generation_delay m =
               next_message_generation_delay (cores arch (core (neuron_at arch n)))
               + latency_access (axon_out_unit_at arch (axon_out_hw (neuron_at arch n)))
           \<and> \<not> placeholder m"
  using assms
  by (auto simp add: axon_out_send_def Let_def Message_spike_def)

lemma push_message_effect:
  "length (messages (push_message cid m ts)) = length (messages ts)"
  "ts_timestep (push_message cid m ts) = ts_timestep ts"
  "j \<noteq> cid \<Longrightarrow> messages (push_message cid m ts) ! j = messages ts ! j"
  "cid < length (messages ts) \<Longrightarrow> messages (push_message cid m ts) ! cid = messages ts ! cid @ [m]"
  by (simp_all add: push_message_def)

lemma fold_axon_out_send_effect:
  assumes "fold (axon_out_send M n) as (ts, arch) = (ts', arch')"
    and "core_id (cores arch (core (neuron_at arch n))) < length (messages ts)"
  shows "neuron_at arch' = neuron_at arch
    \<and> soma_unit_at arch' = soma_unit_at arch
    \<and> connection_at arch' = connection_at arch
    \<and> synapse_unit_at arch' = synapse_unit_at arch
    \<and> cores arch' = (if as = [] then cores arch else (cores arch)(core (neuron_at arch n) :=
           (cores arch (core (neuron_at arch n)))\<lparr>next_message_generation_delay := 0\<rparr>))
    \<and> (\<forall>k. latency_access (axon_out_unit_at arch' k) = latency_access (axon_out_unit_at arch k))
    \<and> length (messages ts') = length (messages ts)
    \<and> ts_timestep ts' = ts_timestep ts
    \<and> (\<forall>j. j \<noteq> core_id (cores arch (core (neuron_at arch n)))
           \<longrightarrow> messages ts' ! j = messages ts ! j)
    \<and> (\<exists>ms. messages ts' ! core_id (cores arch (core (neuron_at arch n)))
             = messages ts ! core_id (cores arch (core (neuron_at arch n))) @ ms
           \<and> map generation_delay ms =
               (case as of [] \<Rightarrow> []
                | _ # r \<Rightarrow>
                   (next_message_generation_delay (cores arch (core (neuron_at arch n)))
                    + latency_access (axon_out_unit_at arch (axon_out_hw (neuron_at arch n))))
                   # replicate (length r)
                       (latency_access (axon_out_unit_at arch (axon_out_hw (neuron_at arch n)))))
           \<and> (\<forall>m \<in> set ms. \<not> placeholder m))"
  using assms
proof (induction as arbitrary: ts arch)
  case Nil
  then show ?case by simp
next
  case (Cons a as)
  obtain ts1 arch1 where step: "axon_out_send M n a (ts, arch) = (ts1, arch1)"
    by (cases "axon_out_send M n a (ts, arch)")
  note e = axon_out_send_effect[OF step]
  from e(7) obtain m where ts1: "ts1 = push_message (core_id (cores arch (core (neuron_at arch n)))) m ts"
    and m: "generation_delay m =
               next_message_generation_delay (cores arch (core (neuron_at arch n)))
               + latency_access (axon_out_unit_at arch (axon_out_hw (neuron_at arch n)))"
      "\<not> placeholder m"
    by blast
  have rest: "fold (axon_out_send M n) as (ts1, arch1) = (ts', arch')"
    using Cons.prems(1) step by simp
  have cid1: "core_id (cores arch1 (core (neuron_at arch1 n))) = core_id (cores arch (core (neuron_at arch n)))"
    by (simp add: e(1) e(5))
  have range1: "core_id (cores arch1 (core (neuron_at arch1 n))) < length (messages ts1)"
    using Cons.prems(2) by (simp add: cid1 ts1 push_message_effect)
  note ih = Cons.IH[OF rest range1, unfolded cid1]
  from ih obtain ms where ms: "messages ts' ! core_id (cores arch (core (neuron_at arch n)))
             = messages ts1 ! core_id (cores arch (core (neuron_at arch n))) @ ms"
      "map generation_delay ms =
               (case as of [] \<Rightarrow> []
                | _ # r \<Rightarrow>
                   (next_message_generation_delay (cores arch1 (core (neuron_at arch1 n)))
                    + latency_access (axon_out_unit_at arch1 (axon_out_hw (neuron_at arch1 n))))
                   # replicate (length r)
                       (latency_access (axon_out_unit_at arch1 (axon_out_hw (neuron_at arch1 n)))))"
      "\<forall>m \<in> set ms. \<not> placeholder m"
    by blast
  have gens: "map generation_delay ms =
      replicate (length as) (latency_access (axon_out_unit_at arch (axon_out_hw (neuron_at arch n))))"
    using ms(2) by (cases as) (simp_all add: e(1) e(5) e(6))
  have q: "messages ts' ! core_id (cores arch (core (neuron_at arch n)))
      = messages ts ! core_id (cores arch (core (neuron_at arch n))) @ (m # ms)"
    using ms(1) Cons.prems(2) by (simp add: ts1 push_message_effect)
  have "map generation_delay (m # ms) =
      (next_message_generation_delay (cores arch (core (neuron_at arch n)))
         + latency_access (axon_out_unit_at arch (axon_out_hw (neuron_at arch n))))
      # replicate (length as) (latency_access (axon_out_unit_at arch (axon_out_hw (neuron_at arch n))))"
    using gens m(1) by simp
  moreover have "\<forall>m' \<in> set (m # ms). \<not> placeholder m'"
    using ms(3) m(2) by simp
  ultimately have "messages ts' ! core_id (cores arch (core (neuron_at arch n)))
             = messages ts ! core_id (cores arch (core (neuron_at arch n))) @ (m # ms)
           \<and> map generation_delay (m # ms) =
               (next_message_generation_delay (cores arch (core (neuron_at arch n)))
                    + latency_access (axon_out_unit_at arch (axon_out_hw (neuron_at arch n))))
                   # replicate (length as)
                       (latency_access (axon_out_unit_at arch (axon_out_hw (neuron_at arch n))))
           \<and> (\<forall>m' \<in> set (m # ms). \<not> placeholder m')"
    using q by simp
  then have ex: "\<exists>ms. messages ts' ! core_id (cores arch (core (neuron_at arch n)))
             = messages ts ! core_id (cores arch (core (neuron_at arch n))) @ ms
           \<and> map generation_delay ms =
               (next_message_generation_delay (cores arch (core (neuron_at arch n)))
                    + latency_access (axon_out_unit_at arch (axon_out_hw (neuron_at arch n))))
                   # replicate (length as)
                       (latency_access (axon_out_unit_at arch (axon_out_hw (neuron_at arch n))))
           \<and> (\<forall>m \<in> set ms. \<not> placeholder m)"
    by (rule exI)
  have cores': "cores arch' = (cores arch)(core (neuron_at arch n) :=
           (cores arch (core (neuron_at arch n)))\<lparr>next_message_generation_delay := 0\<rparr>)"
    using ih by (cases "as = []") (auto simp add: e(1) e(5) fun_eq_iff)
  have others: "\<forall>j. j \<noteq> core_id (cores arch (core (neuron_at arch n)))
           \<longrightarrow> messages ts' ! j = messages ts ! j"
    using ih by (simp add: ts1 push_message_effect)
  show ?case
    using ih ex cores' others by (simp add: e ts1 push_message_effect)
qed


lemma pipeline_process_axon_out_effect:
  assumes "pipeline_process_axon_out M n (ts, arch) = (l, ts', arch')"
    and "queue_index arch n < length (messages ts)"
  shows "l = (if axon_out_input_spike (neuron_at arch n) then axon_out_latency arch n else 0)
    \<and> (\<forall>k. neuron_wiring (neuron_at arch' k) = neuron_wiring (neuron_at arch k))
    \<and> soma_unit_at arch' = soma_unit_at arch
    \<and> connection_at arch' = connection_at arch
    \<and> synapse_unit_at arch' = synapse_unit_at arch
    \<and> cores arch' =
          (if axon_out_input_spike (neuron_at arch n) \<and> axon_out_addresses (neuron_at arch n) \<noteq> []
           then (cores arch)(core (neuron_at arch n) :=
                  (cores arch (core (neuron_at arch n)))\<lparr>next_message_generation_delay := 0\<rparr>)
           else cores arch)
    \<and> (\<forall>k. latency_access (axon_out_unit_at arch' k) = latency_access (axon_out_unit_at arch k))
    \<and> length (messages ts') = length (messages ts)
    \<and> ts_timestep ts' = ts_timestep ts
    \<and> (\<forall>j. j \<noteq> queue_index arch n \<longrightarrow> messages ts' ! j = messages ts ! j)
    \<and> (\<exists>ms. messages ts' ! queue_index arch n = messages ts ! queue_index arch n @ ms
           \<and> map generation_delay ms =
               (if axon_out_input_spike (neuron_at arch n)
                then spike_delays (accumulated_delay arch n) (axon_out_latency arch n)
                       (axon_out_addresses (neuron_at arch n))
                else [])
           \<and> (\<forall>m \<in> set ms. \<not> placeholder m))"
proof (cases "axon_out_input_spike (neuron_at arch n)")
  case False
  then have "l = 0" "ts' = ts" "arch' = arch"
    using assms(1) by (simp_all add: pipeline_process_axon_out_def)
  then show ?thesis
    using False by simp
next
  case True
  obtain ts1 arch1 where f: "fold (axon_out_send M n) (axon_out_addresses (neuron_at arch n)) (ts, arch)
      = (ts1, arch1)"
    by (cases "fold (axon_out_send M n) (axon_out_addresses (neuron_at arch n)) (ts, arch)")
  note e = fold_axon_out_send_effect[OF f assms(2)[unfolded queue_index_def]]
  have res: "l = latency_access (axon_out_unit_at arch1 (axon_out_hw (neuron_at arch1 n)))"
    "ts' = ts1"
    "arch' = arch1\<lparr>neuron_at := (neuron_at arch1)(n := (neuron_at arch1 n)\<lparr>axon_out_input_spike := False\<rparr>)\<rparr>"
    using assms(1) True f by (simp_all add: pipeline_process_axon_out_def Let_def)
  have 1: "l = (if axon_out_input_spike (neuron_at arch n) then axon_out_latency arch n else 0)"
    using e True by (simp add: res axon_out_latency_def)
  have 2: "\<forall>k. neuron_wiring (neuron_at arch' k) = neuron_wiring (neuron_at arch k)"
    using e by (simp add: res neuron_wiring_def)
  have 3: "soma_unit_at arch' = soma_unit_at arch" "connection_at arch' = connection_at arch"
    "synapse_unit_at arch' = synapse_unit_at arch"
    using e by (simp_all add: res)
  have 4: "cores arch' =
        (if axon_out_input_spike (neuron_at arch n) \<and> axon_out_addresses (neuron_at arch n) \<noteq> []
         then (cores arch)(core (neuron_at arch n) :=
                (cores arch (core (neuron_at arch n)))\<lparr>next_message_generation_delay := 0\<rparr>)
         else cores arch)"
    using e True by (simp add: res)
  have 5: "\<forall>k. latency_access (axon_out_unit_at arch' k) = latency_access (axon_out_unit_at arch k)"
    using e by (simp add: res)
  have 6: "length (messages ts') = length (messages ts)" "ts_timestep ts' = ts_timestep ts"
    using e by (simp_all add: res)
  have 7: "\<forall>j. j \<noteq> queue_index arch n \<longrightarrow> messages ts' ! j = messages ts ! j"
    using e by (simp add: res queue_index_def)
  have 8: "\<exists>ms. messages ts' ! queue_index arch n = messages ts ! queue_index arch n @ ms
         \<and> map generation_delay ms =
             (if axon_out_input_spike (neuron_at arch n)
              then spike_delays (accumulated_delay arch n) (axon_out_latency arch n)
                     (axon_out_addresses (neuron_at arch n))
              else [])
         \<and> (\<forall>m \<in> set ms. \<not> placeholder m)"
    using e True
    by (simp add: res queue_index_def spike_delays_def accumulated_delay_def axon_out_latency_def)
  show ?thesis
    using 1 2 3 4 5 6 7 8 by blast
qed

lemmas example_defs = example_message_def example_models_def example_neuron_def example_core_def
  example_arch_def example_ts_def BUFFER_BEFORE_SOMA_UNIT_def BUFFER_BEFORE_DENDRITE_UNIT_def
  BUFFER_BEFORE_AXON_OUT_UNIT_def

lemma units_frame_refl: "units_frame arch arch"
  by (simp add: units_frame_def)

lemma units_frame_trans: "units_frame a b \<Longrightarrow> units_frame b c \<Longrightarrow> units_frame a c"
  by (simp add: units_frame_def)

lemma units_frame_dendrite:
  "pipeline_process_dendrite M ts n arch = (l, arch') \<Longrightarrow> units_frame arch arch'"
  unfolding units_frame_def
  using pipeline_process_dendrite_frame[of M ts n arch l arch'] by blast

lemma units_frame_soma:
  "pipeline_process_soma M ts n arch = (l, arch') \<Longrightarrow> units_frame arch arch'"
  unfolding units_frame_def
  using pipeline_process_soma_frame[of M ts n arch l arch'] by blast

lemma units_frame_facts:
  assumes "units_frame arch arch'"
  shows "queue_index arch' n = queue_index arch n"
    and "accumulated_delay arch' n = accumulated_delay arch n"
    and "axon_out_latency arch' n = axon_out_latency arch n"
    and "core (neuron_at arch' n) = core (neuron_at arch n)"
    and "axon_out_addresses (neuron_at arch' n) = axon_out_addresses (neuron_at arch n)"
    and "buffer_pos_of arch' n = buffer_pos_of arch n"
proof -
  have w: "neuron_wiring (neuron_at arch' n) = neuron_wiring (neuron_at arch n)"
    and c: "cores arch' = cores arch" and a: "axon_out_unit_at arch' = axon_out_unit_at arch"
    using assms by (simp_all add: units_frame_def)
  from w have f: "core (neuron_at arch' n) = core (neuron_at arch n)"
    "axon_out_hw (neuron_at arch' n) = axon_out_hw (neuron_at arch n)"
    "axon_out_addresses (neuron_at arch' n) = axon_out_addresses (neuron_at arch n)"
    by (simp_all add: neuron_wiring_def)
  show "queue_index arch' n = queue_index arch n"
    "accumulated_delay arch' n = accumulated_delay arch n"
    "axon_out_latency arch' n = axon_out_latency arch n"
    "core (neuron_at arch' n) = core (neuron_at arch n)"
    "axon_out_addresses (neuron_at arch' n) = axon_out_addresses (neuron_at arch n)"
    "buffer_pos_of arch' n = buffer_pos_of arch n"
    by (simp_all add: queue_index_def accumulated_delay_def axon_out_latency_def buffer_pos_of_def f c a)
qed

lemma neuron_units_split:
  "neuron_units M n (ts, arch) =
     (let (l2, arch2) = before_axon_out M ts n arch
      in (if buffer_pos_of arch2 n \<le> BUFFER_BEFORE_AXON_OUT_UNIT
          then (let (l, ts3, a) = pipeline_process_axon_out M n (ts, arch2) in (l2 + l, ts3, a))
          else (l2, ts, arch2)))"
  by (simp add: neuron_units_def before_axon_out_def Let_def split: prod.splits)

lemma units_frame_before_axon_out:
  assumes "before_axon_out M ts n arch = (l, arch')"
  shows "units_frame arch arch'"
proof -
  obtain l1 arch1 where s1: "(if buffer_pos_of arch n \<le> BUFFER_BEFORE_DENDRITE_UNIT
             then (let (l, a) = pipeline_process_dendrite M ts n arch in (0 + l, a))
             else (0, arch)) = (l1, arch1)"
    by (cases "(if buffer_pos_of arch n \<le> BUFFER_BEFORE_DENDRITE_UNIT
             then (let (l, a) = pipeline_process_dendrite M ts n arch in (0 + l, a))
             else (0, arch))")
  have f1: "units_frame arch arch1"
  proof (cases "buffer_pos_of arch n \<le> BUFFER_BEFORE_DENDRITE_UNIT")
    case True
    then have "pipeline_process_dendrite M ts n arch = (fst (pipeline_process_dendrite M ts n arch), arch1)"
      using s1 by (simp add: Let_def split: prod.splits)
    then show ?thesis by (rule units_frame_dendrite)
  next
    case False
    then show ?thesis using s1 by (simp add: units_frame_refl)
  qed
  have s2: "(if buffer_pos_of arch1 n \<le> BUFFER_BEFORE_SOMA_UNIT
          then (let (l, a) = pipeline_process_soma M ts n arch1 in (l1 + l, a))
          else (l1, arch1)) = (l, arch')"
    using assms s1 by (simp add: before_axon_out_def Let_def)
  have f2: "units_frame arch1 arch'"
  proof (cases "buffer_pos_of arch1 n \<le> BUFFER_BEFORE_SOMA_UNIT")
    case True
    then have "pipeline_process_soma M ts n arch1 = (fst (pipeline_process_soma M ts n arch1), arch')"
      using s2 by (simp add: Let_def split: prod.splits)
    then show ?thesis by (rule units_frame_soma)
  next
    case False
    then show ?thesis using s2 by (simp add: units_frame_refl)
  qed
  show ?thesis using f1 f2 by (rule units_frame_trans)
qed

lemma core_extends_refl: "core_extends c s s []"
  by (simp add: core_extends_def)

lemma core_extends_core_id:
  assumes "core_extends c s s' ms"
  shows "core_id (cores (snd s') c) = core_id (cores (snd s) c)"
    and "neurons (cores (snd s') c) = neurons (cores (snd s) c)"
    and "timestep_buffer_pos (cores (snd s') c) = timestep_buffer_pos (cores (snd s) c)"
proof -
  have e: "(cores (snd s') c)\<lparr>next_message_generation_delay := 0\<rparr>
         = (cores (snd s) c)\<lparr>next_message_generation_delay := 0\<rparr>"
    using assms by (simp add: core_extends_def)
  show "core_id (cores (snd s') c) = core_id (cores (snd s) c)"
    using arg_cong[OF e, of core_id] by simp
  show "neurons (cores (snd s') c) = neurons (cores (snd s) c)"
    using arg_cong[OF e, of neurons] by simp
  show "timestep_buffer_pos (cores (snd s') c) = timestep_buffer_pos (cores (snd s) c)"
    using arg_cong[OF e, of timestep_buffer_pos] by simp
qed

lemma core_extends_trans:
  assumes "core_extends c s s' ms" and "core_extends c s' s'' ms'"
  shows "core_extends c s s'' (ms @ ms')"
proof -
  note id = core_extends_core_id(1)[OF assms(1)]
  show ?thesis
    using assms unfolding core_extends_def id by auto
qed

lemma neuron_units_effect:
  assumes "neuron_units M n (ts, arch) = (lat, ts', arch')"
    and "queue_index arch n < length (messages ts)"
  shows "\<exists>ms. core_extends (core (neuron_at arch n)) (ts, arch) (ts', arch') ms
          \<and> sum_list (map generation_delay ms) + accumulated_delay arch' n
              = accumulated_delay arch n + real (length ms) * axon_out_latency arch n"
proof -
  obtain l2 arch2 where b: "before_axon_out M ts n arch = (l2, arch2)"
    by (cases "before_axon_out M ts n arch")
  note f = units_frame_before_axon_out[OF b]
  note ff = units_frame_facts[OF f]
  have f': "cores arch2 = cores arch" "axon_out_unit_at arch2 = axon_out_unit_at arch"
     "connection_at arch2 = connection_at arch" "synapse_unit_at arch2 = synapse_unit_at arch"
     "\<forall>k. neuron_wiring (neuron_at arch2 k) = neuron_wiring (neuron_at arch k)"
    using f by (simp_all add: units_frame_def)
  show ?thesis
  proof (cases "buffer_pos_of arch2 n \<le> BUFFER_BEFORE_AXON_OUT_UNIT")
    case False
    then have "ts' = ts" "arch' = arch2"
      using assms(1) b by (simp_all add: neuron_units_split)
    then have "core_extends (core (neuron_at arch n)) (ts, arch) (ts', arch') []"
      using f' by (simp add: core_extends_def)
    moreover have "accumulated_delay arch' n = accumulated_delay arch n"
      using ff(2) \<open>arch' = arch2\<close> by simp
    ultimately show ?thesis
      by (intro exI[of _ "[]"]) simp
  next
    case True
    obtain l3 where a: "pipeline_process_axon_out M n (ts, arch2) = (l3, ts', arch')"
      using assms(1) b True by (simp add: neuron_units_split Let_def split: prod.splits)
    have range: "queue_index arch2 n < length (messages ts)"
      using assms(2) ff(1) by simp
    note e = pipeline_process_axon_out_effect[OF a range, unfolded ff f']
    from e obtain ms where ms: "messages ts' ! queue_index arch n = messages ts ! queue_index arch n @ ms"
      "map generation_delay ms =
               (if axon_out_input_spike (neuron_at arch2 n)
                then spike_delays (accumulated_delay arch n) (axon_out_latency arch n)
                       (axon_out_addresses (neuron_at arch n))
                else [])"
      "\<forall>m \<in> set ms. \<not> placeholder m"
      by blast
    have ext: "core_extends (core (neuron_at arch n)) (ts, arch) (ts', arch') ms"
      unfolding core_extends_def
      using e ms(1,3) f'(5) by (auto simp add: queue_index_def)
    have acc': "accumulated_delay arch' n =
       (if axon_out_input_spike (neuron_at arch2 n) \<and> axon_out_addresses (neuron_at arch n) \<noteq> []
        then 0 else accumulated_delay arch n)"
    proof -
      have "core (neuron_at arch' n) = core (neuron_at arch n)"
        using e ff(4) by (simp add: neuron_wiring_def)
      then show ?thesis
        using e by (simp add: accumulated_delay_def)
    qed
    have len: "length ms = length (map generation_delay ms)" by simp
    have bal: "sum_list (map generation_delay ms) + accumulated_delay arch' n
              = accumulated_delay arch n + real (length ms) * axon_out_latency arch n"
      unfolding len ms(2) acc'
      by (cases "axon_out_addresses (neuron_at arch n)")
         (simp_all add: spike_delays_def sum_list_replicate algebra_simps)
    show ?thesis using ext bal by blast
  qed
qed

lemma pipeline_process_neuron_effect:
  assumes "queue_index arch n < length (messages ts)"
  shows "\<exists>ms. core_extends (core (neuron_at arch n)) (ts, arch)
               (pipeline_process_neuron M n (ts, arch)) ms
          \<and> sum_list (map generation_delay ms)
              + next_message_generation_delay
                  (cores (snd (pipeline_process_neuron M n (ts, arch))) (core (neuron_at arch n)))
              = accumulated_delay arch n + fst (neuron_units M n (ts, arch))
                + real (length ms) * axon_out_latency arch n
          \<and> messages_sent M n (ts, arch) = length ms"
proof -
  obtain lat ts' arch1 where u: "neuron_units M n (ts, arch) = (lat, ts', arch1)"
    by (cases "neuron_units M n (ts, arch)")
  from neuron_units_effect[OF u assms] obtain ms where
    ext: "core_extends (core (neuron_at arch n)) (ts, arch) (ts', arch1) ms"
    and bal: "sum_list (map generation_delay ms) + accumulated_delay arch1 n
              = accumulated_delay arch n + real (length ms) * axon_out_latency arch n"
    by blast
  have c1: "core (neuron_at arch1 n) = core (neuron_at arch n)"
    using ext by (simp add: core_extends_def neuron_wiring_def)
  define c where "c = core (neuron_at arch n)"
  define arch2 where "arch2 = arch1\<lparr>cores := (cores arch1)
                    (c := (cores arch1 c)\<lparr>next_message_generation_delay :=
                       next_message_generation_delay (cores arch1 c) + lat\<rparr>)\<rparr>"
  define arch3 where "arch3 = arch2\<lparr>neuron_at := (neuron_at arch2)(n := (neuron_at arch2 n)\<lparr>spike_count := 0\<rparr>)\<rparr>"
  have res: "pipeline_process_neuron M n (ts, arch) = (ts', arch3)"
    by (simp add: pipeline_process_neuron_def u c1 arch3_def arch2_def c_def Let_def)
  have ext3: "core_extends c (ts, arch) (ts', arch3) ms"
    using ext unfolding core_extends_def c_def[symmetric]
    by (simp add: arch3_def arch2_def neuron_wiring_def)
  have acc3: "next_message_generation_delay (cores arch3 c) = accumulated_delay arch1 n + lat"
    by (simp add: arch3_def arch2_def accumulated_delay_def c1 c_def)
  have sent: "messages_sent M n (ts, arch) = length ms"
    using ext by (simp add: messages_sent_def res core_extends_def queue_index_def)
  show ?thesis
    unfolding res c_def[symmetric]
    using ext3 acc3 bal sent u by (intro exI[of _ ms]) simp
qed

lemma fold_process_neuron_balance:
  assumes "\<forall>n \<in> set ns. core (neuron_at arch n) = c"
    and "core_id (cores arch c) < length (messages ts)"
  shows "\<exists>ms. core_extends c (ts, arch) (fold (pipeline_process_neuron M) ns (ts, arch)) ms
          \<and> sum_list (map generation_delay ms)
              + next_message_generation_delay
                  (cores (snd (fold (pipeline_process_neuron M) ns (ts, arch))) c)
              = next_message_generation_delay (cores arch c)
                + sum_list (reported_latencies M ns (ts, arch))
                + repeated_axon_access M ns (ts, arch)"
  using assms
proof (induction ns arbitrary: ts arch)
  case Nil
  show ?case
    by (intro exI[of _ "[]"]) (simp add: core_extends_refl)
next
  case (Cons n ns)
  have cn: "core (neuron_at arch n) = c"
    using Cons.prems(1) by simp
  have range: "queue_index arch n < length (messages ts)"
    using Cons.prems(2) by (simp add: queue_index_def cn)
  obtain ts1 arch1 where s1: "pipeline_process_neuron M n (ts, arch) = (ts1, arch1)"
    by (cases "pipeline_process_neuron M n (ts, arch)")
  from pipeline_process_neuron_effect[OF range, of M, unfolded s1 cn] obtain ms1 where
    ext1: "core_extends c (ts, arch) (ts1, arch1) ms1"
    and bal1: "sum_list (map generation_delay ms1) + next_message_generation_delay (cores arch1 c)
              = accumulated_delay arch n + fst (neuron_units M n (ts, arch))
                + real (length ms1) * axon_out_latency arch n"
    and sent1: "messages_sent M n (ts, arch) = length ms1"
    by auto
  have cores1: "\<forall>n \<in> set ns. core (neuron_at arch1 n) = c"
    using Cons.prems(1) ext1 by (simp add: core_extends_def neuron_wiring_def)
  have range1: "core_id (cores arch1 c) < length (messages ts1)"
    using Cons.prems(2) core_extends_core_id(1)[OF ext1] ext1 by (simp add: core_extends_def)
  from Cons.IH[OF cores1 range1] obtain ms2 where
    ext2: "core_extends c (ts1, arch1) (fold (pipeline_process_neuron M) ns (ts1, arch1)) ms2"
    and bal2: "sum_list (map generation_delay ms2)
              + next_message_generation_delay
                  (cores (snd (fold (pipeline_process_neuron M) ns (ts1, arch1))) c)
              = next_message_generation_delay (cores arch1 c)
                + sum_list (reported_latencies M ns (ts1, arch1))
                + repeated_axon_access M ns (ts1, arch1)"
    by blast
  have ext: "core_extends c (ts, arch) (fold (pipeline_process_neuron M) (n # ns) (ts, arch)) (ms1 @ ms2)"
    using core_extends_trans[OF ext1 ext2] by (simp add: s1)
  have acc: "accumulated_delay arch n = next_message_generation_delay (cores arch c)"
    by (simp add: accumulated_delay_def cn)
  have bal: "sum_list (map generation_delay (ms1 @ ms2))
              + next_message_generation_delay
                  (cores (snd (fold (pipeline_process_neuron M) (n # ns) (ts, arch))) c)
              = next_message_generation_delay (cores arch c)
                + sum_list (reported_latencies M (n # ns) (ts, arch))
                + repeated_axon_access M (n # ns) (ts, arch)"
    using bal1 bal2 by (simp add: s1 sent1 acc)
  show ?case
    using ext bal by blast
qed

subsection \<open>The receive side\<close>

lemma synapse_catch_up_fields:
  "post_neuron (synapse_catch_up M t con) = post_neuron con
   \<and> synapse_hw (synapse_catch_up M t con) = synapse_hw con
   \<and> con_dendrite_params (synapse_catch_up M t con) = con_dendrite_params con"
proof (induction M t con rule: synapse_catch_up.induct)
  case (1 M t con)
  show ?case
  proof (cases "last_updated con < t")
    case True
    then show ?thesis
      using 1[OF True] by (subst (1 2 3) synapse_catch_up.simps) simp
  next
    case False
    then show ?thesis by (subst (1 2 3) synapse_catch_up.simps) simp
  qed
qed

lemma pipeline_process_synapse_effect:
  assumes "pipeline_process_synapse M ts con a arch = Inr (l, arch')"
  shows "\<exists>h. synapse_hw (connection_at arch con) = Some h
           \<and> l = latency_spike_op (synapse_unit_at arch h)
           \<and> synapse_unit_at arch' = (synapse_unit_at arch)
                (h := (synapse_unit_at arch h)\<lparr>spikes_processed :=
                         spikes_processed (synapse_unit_at arch h) + 1\<rparr>)"
    and "cores arch' = cores arch"
    and "post_neuron (connection_at arch' con) = post_neuron (connection_at arch con)"
  using assms synapse_catch_up_fields[of M "ts_timestep ts" "connection_at arch con"]
  by (auto simp add: pipeline_process_synapse_def Let_def split: option.splits)

lemma pipeline_process_synapse_error:
  "pipeline_process_synapse M ts con a arch = Inl e \<Longrightarrow> e = Assert_synapse_hw"
  by (auto simp add: pipeline_process_synapse_def Let_def split: option.splits)

lemma receive_synapse_cases:
  assumes "0 \<le> a" and "nat a < length (connections_in (cores arch c))"
  shows "receive_synapse M ts c a (l, arch) =
     (let con = connections_in (cores arch c) ! nat a;
          bp = timestep_buffer_pos (cores arch c);
          r1 = synapse_only M ts con a (l, arch)
      in if bp = BUFFER_BEFORE_DENDRITE_UNIT then r1
         else if bp = BUFFER_BEFORE_SOMA_UNIT then then_dendrite M ts con r1
         else if bp = BUFFER_BEFORE_AXON_OUT_UNIT
         then then_soma M ts (post_neuron (connection_at arch con)) (then_dendrite M ts con r1)
         else (case then_soma M ts (post_neuron (connection_at arch con)) (then_dendrite M ts con r1) of
                 Inl e \<Rightarrow> Inl e | Inr x \<Rightarrow> Inl Assert_buffer_pos))"
proof -
  define con where "con = connections_in (cores arch c) ! nat a"
  show ?thesis
  proof (cases "pipeline_process_synapse M ts con a arch")
    case (Inl e)
    then show ?thesis
      using assms
      by (simp add: receive_synapse_def synapse_only_def then_dendrite_def then_soma_def
          con_def[symmetric] Let_def)
  next
    case (Inr r)
    obtain l1 arch1 where r: "r = (l1, arch1)" by (cases r)
    note e = pipeline_process_synapse_effect(2,3)[OF Inr[unfolded r]]
    obtain l2 arch2 where d: "pipeline_process_dendrite M ts (post_neuron (connection_at arch con)) arch1
       = (l2, arch2)"
      by (cases "pipeline_process_dendrite M ts (post_neuron (connection_at arch con)) arch1")
    note fd = pipeline_process_dendrite_frame(2)[OF d]
    obtain l3 arch3 where so: "pipeline_process_soma M ts (post_neuron (connection_at arch con)) arch2
       = (l3, arch3)"
      by (cases "pipeline_process_soma M ts (post_neuron (connection_at arch con)) arch2")
    note fs = pipeline_process_soma_frame(1)[OF so]
    show ?thesis
      using assms
      by (simp add: receive_synapse_def synapse_only_def then_dendrite_def then_soma_def
          con_def[symmetric] Let_def Inr r e d fd so fs)
  qed
qed

lemma receive_synapse_cores:
  assumes "receive_synapse M ts c a (l, arch) = Inr (l', arch')"
  shows "cores arch' = cores arch"
proof -
  have range: "0 \<le> a" "nat a < length (connections_in (cores arch c))"
    using assms by (auto simp add: receive_synapse_def split: if_splits)
  define con where "con = connections_in (cores arch c) ! nat a"
  obtain l1 arch1 where s: "pipeline_process_synapse M ts con a arch = Inr (l1, arch1)"
    using assms range
    by (cases "pipeline_process_synapse M ts con a arch")
       (auto simp add: receive_synapse_def con_def Let_def)
  note e = pipeline_process_synapse_effect(2,3)[OF s]
  obtain l2 arch2 where d: "pipeline_process_dendrite M ts (post_neuron (connection_at arch con)) arch1
     = (l2, arch2)"
    by (cases "pipeline_process_dendrite M ts (post_neuron (connection_at arch con)) arch1")
  note fd = pipeline_process_dendrite_frame(2)[OF d]
  obtain l3 arch3 where so: "pipeline_process_soma M ts (post_neuron (connection_at arch con)) arch2
     = (l3, arch3)"
    by (cases "pipeline_process_soma M ts (post_neuron (connection_at arch con)) arch2")
  note fs = pipeline_process_soma_frame(1)[OF so]
  show ?thesis
    using assms range e(1) fd fs
    by (auto simp add: receive_synapse_def con_def[symmetric] Let_def s e(2) d so
        split: if_splits)
qed

lemma receive_synapse_no_buffer_assert:
  assumes "timestep_buffer_pos (cores arch c) \<in>
      {BUFFER_BEFORE_DENDRITE_UNIT, BUFFER_BEFORE_SOMA_UNIT, BUFFER_BEFORE_AXON_OUT_UNIT}"
  shows "receive_synapse M ts c a (l, arch) \<noteq> Inl Assert_buffer_pos"
proof (cases "0 \<le> a \<and> nat a < length (connections_in (cores arch c))")
  case False
  then show ?thesis by (auto simp add: receive_synapse_def)
next
  case True
  define con where "con = connections_in (cores arch c) ! nat a"
  have s: "synapse_only M ts con a (l, arch) \<noteq> Inl Assert_buffer_pos"
    using pipeline_process_synapse_error[of M ts con a arch]
    by (auto simp add: synapse_only_def split: sum.splits)
  have d: "then_dendrite M ts con (synapse_only M ts con a (l, arch)) \<noteq> Inl Assert_buffer_pos"
    using s by (auto simp add: then_dendrite_def Let_def split: sum.splits prod.splits)
  have so: "then_soma M ts n (then_dendrite M ts con (synapse_only M ts con a (l, arch)))
      \<noteq> Inl Assert_buffer_pos" for n
    using d by (auto simp add: then_soma_def Let_def split: sum.splits prod.splits)
  show ?thesis
    using True assms s d so
    by (auto simp add: receive_synapse_cases Let_def con_def[symmetric])
qed

lemma receive_synapses_no_buffer_assert:
  assumes "timestep_buffer_pos (cores (snd s) c) \<in>
      {BUFFER_BEFORE_DENDRITE_UNIT, BUFFER_BEFORE_SOMA_UNIT, BUFFER_BEFORE_AXON_OUT_UNIT}"
  shows "receive_synapses M ts c as s \<noteq> Inl Assert_buffer_pos"
  using assms
proof (induction as arbitrary: s)
  case Nil
  then show ?case by simp
next
  case (Cons a as)
  obtain l arch where s: "s = (l, arch)" by (cases s)
  show ?case
  proof (cases "receive_synapse M ts c a s")
    case (Inl e)
    then show ?thesis
      using receive_synapse_no_buffer_assert[of arch c M ts a l] Cons.prems by (auto simp add: s)
  next
    case (Inr s')
    obtain l' arch' where s': "s' = (l', arch')" by (cases s')
    have "cores arch' = cores arch"
      using receive_synapse_cores[of M ts c a l arch l' arch'] Inr by (simp add: s s')
    then have "timestep_buffer_pos (cores (snd s') c) \<in>
      {BUFFER_BEFORE_DENDRITE_UNIT, BUFFER_BEFORE_SOMA_UNIT, BUFFER_BEFORE_AXON_OUT_UNIT}"
      using Cons.prems by (simp add: s s')
    from Cons.IH[OF this] show ?thesis
      by (simp add: Inr)
  qed
qed

lemma pipeline_process_axon_in_effect:
  assumes "pipeline_process_axon_in c m arch = Inr (l, arch')"
  shows "timestep_buffer_pos (cores arch' c) = timestep_buffer_pos (cores arch c)"
  using assms by (auto simp add: pipeline_process_axon_in_def Let_def split: if_splits)

lemma pipeline_process_message_no_buffer_assert:
  assumes "timestep_buffer_pos (cores arch c) \<in>
      {BUFFER_BEFORE_DENDRITE_UNIT, BUFFER_BEFORE_SOMA_UNIT, BUFFER_BEFORE_AXON_OUT_UNIT}"
  shows "pipeline_process_message M ts c m arch \<noteq> Inl Assert_buffer_pos"
proof (cases "pipeline_process_axon_in c m arch")
  case (Inl e)
  then have "e \<noteq> Assert_buffer_pos"
    by (auto simp add: pipeline_process_axon_in_def Let_def split: if_splits)
  then show ?thesis
    by (simp add: pipeline_process_message_def Inl)
next
  case (Inr r)
  obtain l arch1 where r: "r = (l, arch1)" by (cases r)
  have "timestep_buffer_pos (cores (snd (l, arch1)) c) \<in>
      {BUFFER_BEFORE_DENDRITE_UNIT, BUFFER_BEFORE_SOMA_UNIT, BUFFER_BEFORE_AXON_OUT_UNIT}"
    using pipeline_process_axon_in_effect[OF Inr[unfolded r]] assms by simp
  from receive_synapses_no_buffer_assert[OF this] show ?thesis
    by (simp add: pipeline_process_message_def Inr r)
qed

lemmas pipeline_defs = process_neurons_core_def pipeline_process_neuron_def neuron_units_def
  pipeline_process_dendrite_def pipeline_process_soma_def pipeline_process_axon_out_def
  axon_out_send_def soma_loop.simps soma_step_def dendrite_catch_up.simps dendrite_integrate_def
  soma_current_in_def buffer_pos_of_def Message_spike_def Message_placeholder_def
  push_message_def queue_index_def accumulated_delay_def axon_out_latency_def messages_sent_def
  pipeline_process_message_def pipeline_process_axon_in_def pipeline_process_synapse_def
  synapse_catch_up.simps receive_synapse_def synapse_only_def then_dendrite_def then_soma_def
  Let_def



text \<open>
  C10. A firing neuron with the out-axons \<open>a # as\<close>: the first message carries the
  accumulated delay of the core plus the axon-out unit's \<open>latency_access\<close>, each of the
  remaining messages carries \<open>latency_access\<close> alone, and the accumulator is zero
  afterwards.
\<close>

theorem axon_out_only_first_message_carries_accumulated_delay:
  assumes "axon_out_input_spike (neuron_at arch n)"
    and "axon_out_addresses (neuron_at arch n) = a # as"
    and "queue_index arch n < length (messages ts)"
  shows "\<exists>m ms. messages (fst (snd (pipeline_process_axon_out M n (ts, arch)))) ! queue_index arch n
               = messages ts ! queue_index arch n @ m # ms
           \<and> generation_delay m = accumulated_delay arch n + axon_out_latency arch n
           \<and> length ms = length as
           \<and> (\<forall>m' \<in> set ms. generation_delay m' = axon_out_latency arch n)
           \<and> accumulated_delay (snd (snd (pipeline_process_axon_out M n (ts, arch)))) n = 0"
proof -
  obtain l ts' arch' where r: "pipeline_process_axon_out M n (ts, arch) = (l, ts', arch')"
    by (cases "pipeline_process_axon_out M n (ts, arch)")
  note e = pipeline_process_axon_out_effect[OF r assms(3)]
  from e obtain ms where ms: "messages ts' ! queue_index arch n = messages ts ! queue_index arch n @ ms"
    "map generation_delay ms = (accumulated_delay arch n + axon_out_latency arch n)
        # replicate (length as) (axon_out_latency arch n)"
    using assms(1,2) by (auto simp add: spike_delays_def)
  from ms(2) obtain m r where mr: "ms = m # r"
    by (cases ms) auto
  have m: "generation_delay m = accumulated_delay arch n + axon_out_latency arch n"
    and r': "map generation_delay r = replicate (length as) (axon_out_latency arch n)"
    using ms(2) by (simp_all add: mr)
  have len: "length r = length as"
    using arg_cong[OF r', of length] by simp
  have all: "\<forall>m' \<in> set r. generation_delay m' = axon_out_latency arch n"
  proof
    fix m' assume "m' \<in> set r"
    then have "generation_delay m' \<in> set (map generation_delay r)" by simp
    then show "generation_delay m' = axon_out_latency arch n"
      unfolding r' by simp
  qed
  have "core (neuron_at arch' n) = core (neuron_at arch n)"
    using e by (simp add: neuron_wiring_def)
  then have acc: "accumulated_delay arch' n = 0"
    using e assms(1,2) by (simp add: accumulated_delay_def)
  show ?thesis
    unfolding r using ms(1) m len all acc unfolding mr by auto
qed

theorem axon_out_only_first_message_carries_accumulated_delay_witness:
  "axon_out_input_spike (neuron_at example_arch_spiking 0)
   \<and> axon_out_addresses (neuron_at example_arch_spiking 0) = [0, 1]
   \<and> queue_index example_arch_spiking 0 < length (messages example_ts)
   \<and> map generation_delay
        (messages (fst (snd (pipeline_process_axon_out example_models 0
                               (example_ts, example_arch_spiking)))) ! 0) = [13, 8]
   \<and> accumulated_delay
        (snd (snd (pipeline_process_axon_out example_models 0 (example_ts, example_arch_spiking)))) 0
      = 0"
  using axon_out_only_first_message_carries_accumulated_delay
          [of example_arch_spiking 0 0 "[1]" example_ts example_models]
  by (simp add: pipeline_defs example_defs example_arch_spiking_def)

text \<open>
  C3 on one core with one neuron that has two out-axons and a forced spike, the
  accumulator at zero and the queue empty. The soma reports 1 + 2 + 4 and the axon-out
  unit reports its \<open>latency_access\<close>, 8: the units report 15. The two spike messages carry
  8 each and the placeholder carries 15, which is 31 in all: \<open>latency_access\<close> is added to
  every spike message and, returned by \<^verbatim>\<open>pipeline_process_axon_out\<close>, it is added to the
  accumulator as well.
\<close>

theorem axon_access_latency_counted_twice:
  "next_message_generation_delay (cores example_arch 0) = 0
   \<and> messages example_ts ! 0 = []
   \<and> axon_out_latency example_arch 0 = 8
   \<and> map generation_delay
        (messages (fst (process_neurons_core example_models 0 (example_ts, example_arch))) ! 0)
      = [8, 8, 15]
   \<and> map placeholder
        (messages (fst (process_neurons_core example_models 0 (example_ts, example_arch))) ! 0)
      = [False, False, True]
   \<and> reported_latencies example_models (neurons (cores example_arch 0)) (example_ts, example_arch)
      = [15]
   \<and> sum_list (map generation_delay
        (messages (fst (process_neurons_core example_models 0 (example_ts, example_arch))) ! 0))
      = 31
   \<and> sum_list (reported_latencies example_models (neurons (cores example_arch 0))
                  (example_ts, example_arch)) = 15"
  by (simp add: pipeline_defs example_defs)

text \<open>
  The excess in general: the generation delays of the messages appended to the queue of
  core \<open>c\<close> add up to the accumulator's value on entry, plus the latencies reported for
  the core's neurons, plus the axon-out unit's \<open>latency_access\<close> once more for every spike
  message sent.
\<close>

theorem generation_delay_sum:
  assumes "\<forall>n \<in> set (neurons (cores arch c)). core (neuron_at arch n) = c"
    and "core_id (cores arch c) < length (messages ts)"
  shows "\<exists>ms. messages (fst (process_neurons_core M c (ts, arch))) ! core_id (cores arch c)
             = messages ts ! core_id (cores arch c) @ ms
          \<and> sum_list (map generation_delay ms)
             = next_message_generation_delay (cores arch c)
               + sum_list (reported_latencies M (neurons (cores arch c)) (ts, arch))
               + repeated_axon_access M (neurons (cores arch c)) (ts, arch)"
proof -
  obtain ts1 arch1 where f: "fold (pipeline_process_neuron M) (neurons (cores arch c)) (ts, arch)
      = (ts1, arch1)"
    by (cases "fold (pipeline_process_neuron M) (neurons (cores arch c)) (ts, arch)")
  from fold_process_neuron_balance[OF assms, of M, unfolded f] obtain ms where
    ext: "core_extends c (ts, arch) (ts1, arch1) ms"
    and bal: "sum_list (map generation_delay ms) + next_message_generation_delay (cores arch1 c)
              = next_message_generation_delay (cores arch c)
                + sum_list (reported_latencies M (neurons (cores arch c)) (ts, arch))
                + repeated_axon_access M (neurons (cores arch c)) (ts, arch)"
    by auto
  have id: "core_id (cores arch1 c) = core_id (cores arch c)"
    using core_extends_core_id(1)[OF ext] by simp
  have q: "messages ts1 ! core_id (cores arch c) = messages ts ! core_id (cores arch c) @ ms"
    and len: "length (messages ts1) = length (messages ts)"
    using ext by (simp_all add: core_extends_def)
  show ?thesis
  proof (cases "next_message_generation_delay (cores arch1 c) = 0")
    case True
    then have "fst (process_neurons_core M c (ts, arch)) = ts1"
      by (simp add: process_neurons_core_def f)
    then show ?thesis
      using q bal True by (intro exI[of _ ms]) simp
  next
    case False
    define p where "p = (Message_placeholder M (neuron_at arch1 (last (neurons (cores arch1 c))))
                            (ts_timestep ts1))
                         \<lparr>generation_delay := next_message_generation_delay (cores arch1 c)\<rparr>"
    have "fst (process_neurons_core M c (ts, arch)) = push_message (core_id (cores arch c)) p ts1"
      using False by (simp add: process_neurons_core_def f Let_def id p_def)
    then have "messages (fst (process_neurons_core M c (ts, arch))) ! core_id (cores arch c)
        = messages ts ! core_id (cores arch c) @ (ms @ [p])"
      using q len assms(2) by (simp add: push_message_effect)
    moreover have "sum_list (map generation_delay (ms @ [p]))
             = next_message_generation_delay (cores arch c)
               + sum_list (reported_latencies M (neurons (cores arch c)) (ts, arch))
               + repeated_axon_access M (neurons (cores arch c)) (ts, arch)"
      using bal by (simp add: p_def)
    ultimately show ?thesis
      by blast
  qed
qed

theorem generation_delay_sum_witness:
  "neurons (cores example_arch 0) = [0]
   \<and> core (neuron_at example_arch 0) = 0
   \<and> core_id (cores example_arch 0) < length (messages example_ts)
   \<and> sum_list (map generation_delay
        (messages (fst (process_neurons_core example_models 0 (example_ts, example_arch))) ! 0))
      = 31
   \<and> next_message_generation_delay (cores example_arch 0) = 0
   \<and> sum_list (reported_latencies example_models (neurons (cores example_arch 0))
                  (example_ts, example_arch)) = 15
   \<and> repeated_axon_access example_models (neurons (cores example_arch 0))
        (example_ts, example_arch) = 16"
  using generation_delay_sum[of example_arch 0 example_ts example_models]
  by (simp add: pipeline_defs example_defs)

text \<open>
  C4 as the spec states it: after the placeholder is appended the accumulator is reset to
  zero. In the example the placeholder carries the accumulated 15, and the accumulator
  of the core still holds 15 when \<open>pipeline_process_neurons\<close> is done with the core.
\<close>

theorem placeholder_reset_counterexample:
  "placeholder (last (messages (fst (process_neurons_core example_models 0
                                       (example_ts, example_arch))) ! 0))
   \<and> generation_delay (last (messages (fst (process_neurons_core example_models 0
                                              (example_ts, example_arch))) ! 0)) = 15
   \<and> next_message_generation_delay
        (cores (snd (process_neurons_core example_models 0 (example_ts, example_arch))) 0) = 15
   \<and> next_message_generation_delay
        (cores (snd (pipeline_process_neurons example_models [0] (example_ts, example_arch))) 0) = 15"
  by (simp add: pipeline_process_neurons_def pipeline_defs example_defs)

text \<open>
  C4 as the code has it. \<open>s1\<close> is the state after all mapped neurons of core \<open>c\<close> were
  visited. A placeholder message (\<open>placeholder = true\<close>, source the last mapped neuron,
  \<open>generation_delay\<close> the accumulated delay) is appended to the core's queue if and only
  if the accumulated delay is not zero; nothing else changes, and the accumulator keeps
  its value: \<open>pipeline_process_neurons\<close> does not reset it.
\<close>

theorem placeholder_iff_accumulated_delay:
  assumes "s1 = fold (pipeline_process_neuron M) (neurons (cores arch c)) (ts, arch)"
    and "core_id (cores (snd s1) c) < length (messages (fst s1))"
    and "neurons (cores (snd s1) c) \<noteq> []"
  shows "(if next_message_generation_delay (cores (snd s1) c) \<noteq> 0
          then \<exists>p. messages (fst (process_neurons_core M c (ts, arch)))
                      = (messages (fst s1))
                          [core_id (cores (snd s1) c) :=
                             messages (fst s1) ! core_id (cores (snd s1) c) @ [p]]
                 \<and> placeholder p
                 \<and> src_neuron_id p = neuron_id (neuron_at (snd s1) (last (neurons (cores (snd s1) c))))
                 \<and> generation_delay p = next_message_generation_delay (cores (snd s1) c)
          else messages (fst (process_neurons_core M c (ts, arch))) = messages (fst s1))
     \<and> snd (process_neurons_core M c (ts, arch)) = snd s1
     \<and> next_message_generation_delay (cores (snd (process_neurons_core M c (ts, arch))) c)
        = next_message_generation_delay (cores (snd s1) c)"
proof -
  obtain ts1 arch1 where s1: "s1 = (ts1, arch1)" by (cases s1)
  have f: "fold (pipeline_process_neuron M) (neurons (cores arch c)) (ts, arch) = (ts1, arch1)"
    using assms(1) s1 by simp
  show ?thesis
  proof (cases "next_message_generation_delay (cores arch1 c) = 0")
    case True
    then show ?thesis
      by (simp add: process_neurons_core_def f s1)
  next
    case False
    define p where "p = (Message_placeholder M (neuron_at arch1 (last (neurons (cores arch1 c))))
                            (ts_timestep ts1))
                         \<lparr>generation_delay := next_message_generation_delay (cores arch1 c)\<rparr>"
    have r: "process_neurons_core M c (ts, arch) = (push_message (core_id (cores arch1 c)) p ts1, arch1)"
      using False by (simp add: process_neurons_core_def f Let_def p_def)
    have "messages (fst (process_neurons_core M c (ts, arch)))
            = (messages ts1)[core_id (cores arch1 c) := messages ts1 ! core_id (cores arch1 c) @ [p]]
          \<and> placeholder p
          \<and> src_neuron_id p = neuron_id (neuron_at arch1 (last (neurons (cores arch1 c))))
          \<and> generation_delay p = next_message_generation_delay (cores arch1 c)"
      by (simp add: r push_message_def p_def Message_placeholder_def)
    then have "\<exists>p. messages (fst (process_neurons_core M c (ts, arch)))
            = (messages ts1)[core_id (cores arch1 c) := messages ts1 ! core_id (cores arch1 c) @ [p]]
          \<and> placeholder p
          \<and> src_neuron_id p = neuron_id (neuron_at arch1 (last (neurons (cores arch1 c))))
          \<and> generation_delay p = next_message_generation_delay (cores arch1 c)"
      by (rule exI)
    then show ?thesis
      using False by (simp add: s1 r)
  qed
qed

theorem placeholder_iff_accumulated_delay_witness:
  "core_id (cores (snd (fold (pipeline_process_neuron example_models)
                          (neurons (cores example_arch 0)) (example_ts, example_arch))) 0)
     < length (messages (fst (fold (pipeline_process_neuron example_models)
                          (neurons (cores example_arch 0)) (example_ts, example_arch))))
   \<and> neurons (cores (snd (fold (pipeline_process_neuron example_models)
                          (neurons (cores example_arch 0)) (example_ts, example_arch))) 0) = [0]
   \<and> next_message_generation_delay
        (cores (snd (fold (pipeline_process_neuron example_models)
                       (neurons (cores example_arch 0)) (example_ts, example_arch))) 0) = 15
   \<and> map placeholder
        (messages (fst (process_neurons_core example_models 0 (example_ts, example_arch))) ! 0)
      = [False, False, True]
   \<and> map src_neuron_id
        (messages (fst (process_neurons_core example_models 0 (example_ts, example_arch))) ! 0)
      = [7, 7, 7]
   \<and> next_message_generation_delay
        (cores (snd (process_neurons_core example_models 0 (example_ts, example_arch))) 0) = 15"
  using placeholder_iff_accumulated_delay
          [of "fold (pipeline_process_neuron example_models)
                 (neurons (cores example_arch 0)) (example_ts, example_arch)"
              example_models example_arch 0 example_ts]
  by (simp add: pipeline_defs example_defs)

subsection \<open>The synapse unit on the send side\<close>

lemma fold_axon_out_send_synapse_frame:
  "connection_at (snd (fold (axon_out_send M n) as s)) = connection_at (snd s)
   \<and> synapse_unit_at (snd (fold (axon_out_send M n) as s)) = synapse_unit_at (snd s)"
proof (induction as arbitrary: s)
  case Nil
  show ?case by simp
next
  case (Cons a as)
  obtain ts arch where s: "s = (ts, arch)" by (cases s)
  obtain ts1 arch1 where step: "axon_out_send M n a (ts, arch) = (ts1, arch1)"
    by (cases "axon_out_send M n a (ts, arch)")
  show ?case
    using Cons.IH[of "(ts1, arch1)"] axon_out_send_effect(3,4)[OF step]
    by (simp add: s step)
qed

lemma pipeline_process_axon_out_synapse_frame:
  "connection_at (snd (snd (pipeline_process_axon_out M n s))) = connection_at (snd s)
   \<and> synapse_unit_at (snd (snd (pipeline_process_axon_out M n s))) = synapse_unit_at (snd s)"
proof -
  obtain ts arch where s: "s = (ts, arch)" by (cases s)
  show ?thesis
    using fold_axon_out_send_synapse_frame[of M n "axon_out_addresses (neuron_at arch n)" "(ts, arch)"]
    by (auto simp add: s pipeline_process_axon_out_def Let_def split: prod.splits)
qed

lemma neuron_units_synapse_frame:
  "connection_at (snd (snd (neuron_units M n s))) = connection_at (snd s)
   \<and> synapse_unit_at (snd (snd (neuron_units M n s))) = synapse_unit_at (snd s)"
proof -
  obtain ts arch where s: "s = (ts, arch)" by (cases s)
  obtain l2 arch2 where b: "before_axon_out M ts n arch = (l2, arch2)"
    by (cases "before_axon_out M ts n arch")
  have f: "connection_at arch2 = connection_at arch" "synapse_unit_at arch2 = synapse_unit_at arch"
    using units_frame_before_axon_out[OF b] by (simp_all add: units_frame_def)
  show ?thesis
    using pipeline_process_axon_out_synapse_frame[of M n "(ts, arch2)"] f
    by (auto simp add: s neuron_units_split b Let_def split: prod.splits)
qed

lemma pipeline_process_neuron_synapse_frame:
  "connection_at (snd (pipeline_process_neuron M n s)) = connection_at (snd s)
   \<and> synapse_unit_at (snd (pipeline_process_neuron M n s)) = synapse_unit_at (snd s)"
  using neuron_units_synapse_frame[of M n s]
  by (auto simp add: pipeline_process_neuron_def Let_def split: prod.splits)

lemma fold_pipeline_process_neuron_synapse_frame:
  "connection_at (snd (fold (pipeline_process_neuron M) ns s)) = connection_at (snd s)
   \<and> synapse_unit_at (snd (fold (pipeline_process_neuron M) ns s)) = synapse_unit_at (snd s)"
  by (induction ns arbitrary: s) (simp_all add: pipeline_process_neuron_synapse_frame)

lemma process_neurons_core_synapse_frame:
  "connection_at (snd (process_neurons_core M c s)) = connection_at (snd s)
   \<and> synapse_unit_at (snd (process_neurons_core M c s)) = synapse_unit_at (snd s)"
  using fold_pipeline_process_neuron_synapse_frame[of M "neurons (cores (snd s) c)" s]
  by (auto simp add: process_neurons_core_def Let_def split: prod.splits)

lemma pipeline_process_neurons_synapse_frame:
  "connection_at (snd (pipeline_process_neurons M cs s)) = connection_at (snd s)
   \<and> synapse_unit_at (snd (pipeline_process_neurons M cs s)) = synapse_unit_at (snd s)"
  unfolding pipeline_process_neurons_def
  by (induction cs arbitrary: s) (simp_all add: process_neurons_core_synapse_frame)

lemma receive_synapse_runs_synapse:
  assumes "receive_synapse M ts c a (l, arch) = Inr (l', arch')"
  shows "\<exists>h. synapse_hw (connection_at arch (connections_in (cores arch c) ! nat a)) = Some h
           \<and> spikes_processed (synapse_unit_at arch' h)
               = spikes_processed (synapse_unit_at arch h) + 1"
proof -
  have range: "0 \<le> a" "nat a < length (connections_in (cores arch c))"
    using assms by (auto simp add: receive_synapse_def split: if_splits)
  define con where "con = connections_in (cores arch c) ! nat a"
  obtain l1 arch1 where s: "pipeline_process_synapse M ts con a arch = Inr (l1, arch1)"
    using assms range
    by (cases "pipeline_process_synapse M ts con a arch")
       (auto simp add: receive_synapse_def con_def Let_def)
  from pipeline_process_synapse_effect(1)[OF s] obtain h where
    h: "synapse_hw (connection_at arch con) = Some h"
    and u: "synapse_unit_at arch1 = (synapse_unit_at arch)
                (h := (synapse_unit_at arch h)\<lparr>spikes_processed :=
                         spikes_processed (synapse_unit_at arch h) + 1\<rparr>)"
    by blast
  note e = pipeline_process_synapse_effect(2,3)[OF s]
  obtain l2 arch2 where d: "pipeline_process_dendrite M ts (post_neuron (connection_at arch con)) arch1
     = (l2, arch2)"
    by (cases "pipeline_process_dendrite M ts (post_neuron (connection_at arch con)) arch1")
  note fd = pipeline_process_dendrite_frame(6)[OF d]
  obtain l3 arch3 where so: "pipeline_process_soma M ts (post_neuron (connection_at arch con)) arch2
     = (l3, arch3)"
    by (cases "pipeline_process_soma M ts (post_neuron (connection_at arch con)) arch2")
  note fs = pipeline_process_soma_frame(4)[OF so]
  have "synapse_unit_at arch' = synapse_unit_at arch1"
    using assms range fd fs
    by (auto simp add: receive_synapse_def con_def[symmetric] Let_def s e(2) d so
        split: if_splits)
  then have "spikes_processed (synapse_unit_at arch' h)
               = spikes_processed (synapse_unit_at arch h) + 1"
    by (simp add: u)
  then show ?thesis
    using h unfolding con_def by blast
qed

text \<open>
  C5 as the spec states it: on the send side the synapse unit is invoked for a neuron
  exactly when the buffer position is \<open>before_dendrite\<close>. In the example the buffer is
  \<open>before_dendrite\<close> and the connection into the neuron is one timestep behind, so a
  synapse update would advance \<open>last_updated\<close> and count a processed spike;
  \<open>pipeline_process_neuron\<close> does neither.
\<close>

theorem synapse_at_send_counterexample:
  "timestep_buffer_pos (cores example_arch_before_dendrite 0) = BUFFER_BEFORE_DENDRITE_UNIT
   \<and> last_updated (connection_at example_arch_before_dendrite 0) < ts_timestep example_ts
   \<and> last_updated (connection_at (snd (pipeline_process_neuron example_models 0
                       (example_ts, example_arch_before_dendrite))) 0) = 0
   \<and> spikes_processed (synapse_unit_at (snd (pipeline_process_neuron example_models 0
                       (example_ts, example_arch_before_dendrite))) 0) = 0
   \<and> dendrite_last_updated (neuron_at (snd (pipeline_process_neuron example_models 0
                       (example_ts, example_arch_before_dendrite))) 0) = 1"
  by (simp add: pipeline_defs example_defs example_arch_before_dendrite_def)

text \<open>
  C5 as the code has it: the process-neurons phase never invokes the synapse unit,
  whatever the buffer position: it changes no connection and no synapse unit. Synapse
  processing happens at message-receive time only, and there for every buffer position:
  each synapse address that the receive loop gets through counts one processed spike at
  the synapse unit of its connection.
\<close>

theorem synapse_only_at_receive:
  "connection_at (snd (pipeline_process_neuron M n s)) = connection_at (snd s)
   \<and> synapse_unit_at (snd (pipeline_process_neuron M n s)) = synapse_unit_at (snd s)
   \<and> connection_at (snd (pipeline_process_neurons M cs s)) = connection_at (snd s)
   \<and> synapse_unit_at (snd (pipeline_process_neurons M cs s)) = synapse_unit_at (snd s)
   \<and> (\<forall>l' arch'. receive_synapse M ts c a (l, arch) = Inr (l', arch') \<longrightarrow>
        (\<exists>h. synapse_hw (connection_at arch (connections_in (cores arch c) ! nat a)) = Some h
           \<and> spikes_processed (synapse_unit_at arch' h)
               = spikes_processed (synapse_unit_at arch h) + 1))"
  using pipeline_process_neuron_synapse_frame[of M n s]
    pipeline_process_neurons_synapse_frame[of M cs s]
    receive_synapse_runs_synapse[of M ts c a l arch]
  by blast

theorem synapse_only_at_receive_witness:
  "spikes_processed (synapse_unit_at (snd (pipeline_process_neuron example_models 0
       (example_ts, example_arch_before_dendrite))) 0) = 0
   \<and> spikes_processed (synapse_unit_at (snd (pipeline_process_neurons example_models [0]
       (example_ts, example_arch_before_dendrite))) 0) = 0
   \<and> receive_synapse example_models example_ts 0 0 (0, example_arch_before_dendrite)
      = Inr (32, snd (projr (receive_synapse example_models example_ts 0 0
                               (0, example_arch_before_dendrite))))
   \<and> synapse_hw (connection_at example_arch_before_dendrite
        (connections_in (cores example_arch_before_dendrite 0) ! nat 0)) = Some 0
   \<and> spikes_processed (synapse_unit_at (snd (projr (receive_synapse example_models example_ts 0 0
        (0, example_arch_before_dendrite)))) 0) = 1"
  using synapse_only_at_receive
          [of example_models 0 "(example_ts, example_arch_before_dendrite)" "[0]" example_ts 0 0 0
              example_arch_before_dendrite]
  by (simp add: pipeline_process_neurons_def pipeline_defs example_defs
      example_arch_before_dendrite_def)

text \<open>
  C9. On a core whose buffer position is one of \<open>before_dendrite\<close>, \<open>before_soma\<close> and
  \<open>before_axon_out\<close>, the body of the receive loop stops after the synapse unit when
  the buffer is \<open>before_dendrite\<close>, stops after the dendrite unit when it is
  \<open>before_soma\<close>, and runs the soma otherwise; the assertion on the buffer position
  never fails, neither in the body nor in \<open>pipeline_process_message\<close> as a whole.
\<close>

theorem receive_loop_stops_at_buffer_position:
  assumes "timestep_buffer_pos (cores arch c) \<in>
      {BUFFER_BEFORE_DENDRITE_UNIT, BUFFER_BEFORE_SOMA_UNIT, BUFFER_BEFORE_AXON_OUT_UNIT}"
    and "0 \<le> a" and "nat a < length (connections_in (cores arch c))"
  shows "pipeline_process_message M ts c m arch \<noteq> Inl Assert_buffer_pos
    \<and> receive_synapse M ts c a (l, arch) \<noteq> Inl Assert_buffer_pos
    \<and> receive_synapse M ts c a (l, arch) =
        (let con = connections_in (cores arch c) ! nat a;
             bp = timestep_buffer_pos (cores arch c);
             r1 = synapse_only M ts con a (l, arch)
         in if bp = BUFFER_BEFORE_DENDRITE_UNIT then r1
            else if bp = BUFFER_BEFORE_SOMA_UNIT then then_dendrite M ts con r1
            else then_soma M ts (post_neuron (connection_at arch con)) (then_dendrite M ts con r1))"
proof -
  have "receive_synapse M ts c a (l, arch) =
        (let con = connections_in (cores arch c) ! nat a;
             bp = timestep_buffer_pos (cores arch c);
             r1 = synapse_only M ts con a (l, arch)
         in if bp = BUFFER_BEFORE_DENDRITE_UNIT then r1
            else if bp = BUFFER_BEFORE_SOMA_UNIT then then_dendrite M ts con r1
            else then_soma M ts (post_neuron (connection_at arch con)) (then_dendrite M ts con r1))"
    using assms(1) unfolding receive_synapse_cases[OF assms(2,3)] Let_def by auto
  then show ?thesis
    using pipeline_process_message_no_buffer_assert[OF assms(1)]
      receive_synapse_no_buffer_assert[OF assms(1)]
    by blast
qed

theorem receive_loop_stops_at_buffer_position_witness:
  "timestep_buffer_pos (cores example_arch 0) = BUFFER_BEFORE_SOMA_UNIT
   \<and> (0 :: int) \<le> 0 \<and> nat 0 < length (connections_in (cores example_arch 0))
   \<and> pipeline_process_message example_models example_ts 0 example_message example_arch
      \<noteq> Inl Assert_buffer_pos
   \<and> fst (projr (pipeline_process_message example_models example_ts 0 example_message example_arch))
      = 48
   \<and> receive_synapse example_models example_ts 0 0 (16, example_arch)
      = then_dendrite example_models example_ts 0
          (synapse_only example_models example_ts 0 0 (16, example_arch))"
  using receive_loop_stops_at_buffer_position
          [of example_arch 0 0 example_models example_ts example_message 16]
  by (simp add: pipeline_defs example_defs)

section \<open>Properties of the scheduler\<close>

declare for_loop.simps [simp del] schedule_loop.simps [simp del]

lemmas schedule_defs = schedule_messages_def initial_state_def initial_noc_def
  scheduled_messages_def initial_store_def message_refs_def schedule_init_timing_priority_def
  schedule_loop.simps schedule_step_def schedule_next_def schedule_send_def path_capacity_def
  schedule_update_noc_def pq_top_def schedule_calculate_messages_along_route_def
  schedule_update_noc_message_counts_def density_add_def for_loop.simps x_increment_def
  y_increment_def idx_def north_def east_def south_def west_def ndirections_def Let_def

lemma update_queue_Nil [simp]: "update_queue t [] s = ([], s)"
  by (cases s) simp

lemma update_queues_replicate_Nil [simp]:
  "update_queues t (replicate n []) s = (replicate n [], s)"
  by (induction n) (cases s, simp)+

lemma rep6: "replicate 6 x = [x, x, x, x, x, x]" "replicate 18 x = [x,x,x,x,x,x,x,x,x,x,x,x,x,x,x,x,x,x]"
  by (simp_all add: numeral_eq_Suc)

subsection \<open>The loops over the route\<close>

lemma for_loop_up:
  "x \<le> stop \<Longrightarrow> for_loop x stop 1 body s = fold body [x..stop - 1] s"
proof (induction "nat (stop - x)" arbitrary: x s)
  case 0
  then have "x = stop" by simp
  then show ?case by (subst for_loop.simps) simp
next
  case (Suc k)
  then have lt: "x < stop" by linarith
  have k: "k = nat (stop - (x + 1))" using Suc.hyps(2) by linarith
  have "[x..stop - 1] = x # [x + 1..stop - 1]"
    using lt by (simp add: upto_rec1)
  then show ?case
    using Suc.hyps(1)[OF k, of "body x s"] lt
    by (subst for_loop.simps) simp
qed

lemma for_loop_down:
  "stop \<le> x \<Longrightarrow> for_loop x stop (- 1) body s = fold body (rev [stop + 1..x]) s"
proof (induction "nat (x - stop)" arbitrary: x s)
  case 0
  then have "x = stop" by simp
  then show ?case by (subst for_loop.simps) simp
next
  case (Suc k)
  then have lt: "stop < x" by linarith
  have k: "k = nat (x - 1 - stop)" using Suc.hyps(2) by linarith
  have "[stop + 1..x] = [stop + 1..x - 1] @ [x]"
    using lt by (simp add: upto_rec2)
  then show ?case
    using Suc.hyps(1)[OF k, of "body x s"] lt
    by (subst for_loop.simps) simp
qed

text \<open>
  With the increment that the source computes, the loop runs from \<open>x\<close> until it meets
  \<open>stop\<close>: the second condition of \<open>for_loop\<close> never ends it early.
\<close>

lemma for_loop_towards:
  "for_loop x stop (if x < stop then 1 else - 1) body s
     = fold body (if x < stop then [x..stop - 1] else rev [stop + 1..x]) s"
  by (simp add: for_loop_up for_loop_down)

subsection \<open>What \<^verbatim>\<open>schedule_update_noc\<close> changes\<close>

lemma update_queue_but_in_noc:
  "update_queue t q (st, nc) = (q', st', nc') \<Longrightarrow> but_in_noc (st' x) = but_in_noc (st x)"
proof (induction q arbitrary: st nc q' st' nc')
  case Nil
  then show ?case by simp
next
  case (Cons r q)
  show ?case
  proof (cases "in_noc (st r) \<and> t \<ge> received_timestamp (st r)")
    case True
    then have "update_queue t q (st(r := (st r)\<lparr>in_noc := False\<rparr>),
        schedule_update_noc_message_counts ((st r)\<lparr>in_noc := False\<rparr>) nc False) = (q', st', nc')"
      using Cons.prems by (simp add: Let_def)
    from Cons.IH[OF this] show ?thesis
      by (simp add: but_in_noc_def)
  next
    case False
    then obtain q1 where "update_queue t q (st, nc) = (q1, st', nc')"
      using Cons.prems by (auto simp add: Let_def split: prod.splits)
    from Cons.IH[OF this] show ?thesis .
  qed
qed

lemma update_queues_but_in_noc:
  "update_queues t qs (st, nc) = (qs', st', nc') \<Longrightarrow> but_in_noc (st' x) = but_in_noc (st x)"
proof (induction qs arbitrary: st nc qs' st' nc')
  case Nil
  then show ?case by simp
next
  case (Cons q qs)
  obtain q1 st1 nc1 where a: "update_queue t q (st, nc) = (q1, st1, nc1)"
    by (cases "update_queue t q (st, nc)")
  obtain qs2 st2 nc2 where b: "update_queues t qs (st1, nc1) = (qs2, st2, nc2)"
    by (cases "update_queues t qs (st1, nc1)")
  have "st' = st2" using Cons.prems a b by (simp add: Let_def)
  then show ?case
    using Cons.IH[OF b] update_queue_but_in_noc[OF a] by simp
qed

lemma schedule_update_noc_but_in_noc:
  "schedule_update_noc t (st, nc) = (st', nc') \<Longrightarrow> but_in_noc (st' x) = but_in_noc (st x)"
  using update_queues_but_in_noc[of t "messages_received nc" st nc]
  by (auto simp add: schedule_update_noc_def Let_def split: prod.splits)

lemma but_in_noc_fields:
  assumes "but_in_noc m' = but_in_noc m"
  shows "sent_timestamp m' = sent_timestamp m" "received_timestamp m' = received_timestamp m"
    "processed_timestamp m' = processed_timestamp m" "placeholder m' = placeholder m"
    "hops m' = hops m" "generation_delay m' = generation_delay m"
    "network_delay m' = network_delay m" "receive_delay m' = receive_delay m"
    "src_core_id m' = src_core_id m" "dest_core_id m' = dest_core_id m"
  using arg_cong[OF assms, of sent_timestamp] arg_cong[OF assms, of received_timestamp]
    arg_cong[OF assms, of processed_timestamp] arg_cong[OF assms, of placeholder]
    arg_cong[OF assms, of hops] arg_cong[OF assms, of generation_delay]
    arg_cong[OF assms, of network_delay] arg_cong[OF assms, of receive_delay]
    arg_cong[OF assms, of src_core_id] arg_cong[OF assms, of dest_core_id]
  by (simp_all add: but_in_noc_def)

subsection \<open>The block for a message that is not a placeholder\<close>

text \<open>\<open>schedule_send\<close> with its intermediate values named.\<close>

lemma schedule_send_Inr:
  assumes "schedule_send sched r (st, nc, lst) = Inr (st', nc', lst')"
  obtains d m2 nc2 e where
    "schedule_calculate_messages_along_route (st r) nc = Inr d"
    "m2 = (if d > real (path_capacity sched (st r))
           then (st r)\<lparr>sent_timestamp := sent_timestamp (st r)
                   + (d - real (path_capacity sched (st r))) * mean_in_flight_receive_delay nc\<rparr>
           else st r)\<lparr>in_noc := True\<rparr>"
    "0 \<le> dest_core_id (st r)" "nat (dest_core_id (st r)) < length (messages_received nc)"
    "nc2 = schedule_update_noc_message_counts m2
             (nc\<lparr>messages_received := (messages_received nc)
                  [nat (dest_core_id (st r)) :=
                     messages_received nc ! nat (dest_core_id (st r)) @ [r]]\<rparr>) True"
    "e = sent_timestamp m2
         + max (network_delay m2) (d * mean_in_flight_receive_delay nc2 / (real (hops m2) + 1))"
    "nat (dest_core_id (st r)) < length (core_finished_receiving nc2)"
    "st' = st(r := m2\<lparr>received_timestamp :=
                       max (core_finished_receiving nc2 ! nat (dest_core_id (st r))) e,
                     processed_timestamp :=
                       max (core_finished_receiving nc2 ! nat (dest_core_id (st r)) + receive_delay m2)
                           (e + receive_delay m2)\<rparr>)"
    "nc' = nc2\<lparr>core_finished_receiving := (core_finished_receiving nc2)
              [nat (dest_core_id (st r)) :=
                 max (core_finished_receiving nc2 ! nat (dest_core_id (st r)) + receive_delay m2)
                     (e + receive_delay m2)]\<rparr>"
    "lst' = max lst (max (core_finished_receiving nc2 ! nat (dest_core_id (st r)) + receive_delay m2)
                        (e + receive_delay m2))"
proof -
  obtain d where d: "schedule_calculate_messages_along_route (st r) nc = Inr d"
    using assms by (cases "schedule_calculate_messages_along_route (st r) nc")
      (simp_all add: schedule_send_def Let_def)
  define m2 where "m2 = (if d > real (path_capacity sched (st r))
           then (st r)\<lparr>sent_timestamp := sent_timestamp (st r)
                   + (d - real (path_capacity sched (st r))) * mean_in_flight_receive_delay nc\<rparr>
           else st r)\<lparr>in_noc := True\<rparr>"
  have dest: "dest_core_id m2 = dest_core_id (st r)"
    by (simp add: m2_def)
  have range: "0 \<le> dest_core_id (st r) \<and> nat (dest_core_id (st r)) < length (messages_received nc)"
    using assms d by (simp add: schedule_send_def Let_def split: if_splits)
  define nc2 where "nc2 = schedule_update_noc_message_counts m2
             (nc\<lparr>messages_received := (messages_received nc)
                  [nat (dest_core_id (st r)) :=
                     messages_received nc ! nat (dest_core_id (st r)) @ [r]]\<rparr>) True"
  define e where "e = sent_timestamp m2
         + max (network_delay m2) (d * mean_in_flight_receive_delay nc2 / (real (hops m2) + 1))"
  have a: "schedule_send sched r (st, nc, lst) =
    (if \<not> nat (dest_core_id (st r)) < length (core_finished_receiving nc2) then Inl Out_of_range
     else Inr (st(r := m2\<lparr>received_timestamp :=
                       max (core_finished_receiving nc2 ! nat (dest_core_id (st r))) e,
                     processed_timestamp :=
                       max (core_finished_receiving nc2 ! nat (dest_core_id (st r)) + receive_delay m2)
                           (e + receive_delay m2)\<rparr>),
               nc2\<lparr>core_finished_receiving := (core_finished_receiving nc2)
                  [nat (dest_core_id (st r)) :=
                    max (core_finished_receiving nc2 ! nat (dest_core_id (st r)) + receive_delay m2)
                     (e + receive_delay m2)]\<rparr>,
               max lst (max (core_finished_receiving nc2 ! nat (dest_core_id (st r)) + receive_delay m2)
                        (e + receive_delay m2))))"
    unfolding schedule_send_def Let_def prod.case d sum.case
    using range
    by (simp add: m2_def[symmetric] nc2_def[symmetric] e_def[symmetric])
  have r2: "nat (dest_core_id (st r)) < length (core_finished_receiving nc2)"
    using assms unfolding a by (simp split: if_splits)
  show ?thesis
    using that[OF d m2_def _ _ nc2_def e_def r2] range assms r2 unfolding a
    by simp
qed

lemma schedule_send_effect:
  assumes "schedule_send sched r (st, nc, lst) = Inr (st', nc', lst')"
  shows "\<exists>d. schedule_calculate_messages_along_route (st r) nc = Inr d
     \<and> sent_timestamp (st' r) =
         (if d > real (path_capacity sched (st r))
          then sent_timestamp (st r)
               + (d - real (path_capacity sched (st r))) * mean_in_flight_receive_delay nc
          else sent_timestamp (st r))"
    and "received_timestamp (st' r) \<ge> sent_timestamp (st' r) + network_delay (st r)"
    and "processed_timestamp (st' r) = received_timestamp (st' r) + receive_delay (st r)"
    and "lst' = max lst (processed_timestamp (st' r))"
    and "in_noc (st' r)"
    and "(st' r)\<lparr>sent_timestamp := 0, received_timestamp := 0, processed_timestamp := 0, in_noc := False\<rparr>
        = (st r)\<lparr>sent_timestamp := 0, received_timestamp := 0, processed_timestamp := 0, in_noc := False\<rparr>"
    and "x \<noteq> r \<Longrightarrow> st' x = st x"
proof -
  from assms obtain d m2 nc2 e where
    d: "schedule_calculate_messages_along_route (st r) nc = Inr d"
    and m2: "m2 = (if d > real (path_capacity sched (st r))
           then (st r)\<lparr>sent_timestamp := sent_timestamp (st r)
                   + (d - real (path_capacity sched (st r))) * mean_in_flight_receive_delay nc\<rparr>
           else st r)\<lparr>in_noc := True\<rparr>"
    and "0 \<le> dest_core_id (st r)" "nat (dest_core_id (st r)) < length (messages_received nc)"
    and "nc2 = schedule_update_noc_message_counts m2
             (nc\<lparr>messages_received := (messages_received nc)
                  [nat (dest_core_id (st r)) :=
                     messages_received nc ! nat (dest_core_id (st r)) @ [r]]\<rparr>) True"
    and e: "e = sent_timestamp m2
         + max (network_delay m2) (d * mean_in_flight_receive_delay nc2 / (real (hops m2) + 1))"
    and "nat (dest_core_id (st r)) < length (core_finished_receiving nc2)"
    and st': "st' = st(r := m2\<lparr>received_timestamp :=
                       max (core_finished_receiving nc2 ! nat (dest_core_id (st r))) e,
                     processed_timestamp :=
                       max (core_finished_receiving nc2 ! nat (dest_core_id (st r)) + receive_delay m2)
                           (e + receive_delay m2)\<rparr>)"
    and "nc' = nc2\<lparr>core_finished_receiving := (core_finished_receiving nc2)
              [nat (dest_core_id (st r)) :=
                 max (core_finished_receiving nc2 ! nat (dest_core_id (st r)) + receive_delay m2)
                     (e + receive_delay m2)]\<rparr>"
    and lst': "lst' = max lst (max (core_finished_receiving nc2 ! nat (dest_core_id (st r)) + receive_delay m2)
                        (e + receive_delay m2))"
    by (rule schedule_send_Inr)
  have f: "network_delay m2 = network_delay (st r)" "receive_delay m2 = receive_delay (st r)"
    by (simp_all add: m2)
  show "\<exists>d. schedule_calculate_messages_along_route (st r) nc = Inr d
     \<and> sent_timestamp (st' r) =
         (if d > real (path_capacity sched (st r))
          then sent_timestamp (st r)
               + (d - real (path_capacity sched (st r))) * mean_in_flight_receive_delay nc
          else sent_timestamp (st r))"
    using d by (simp add: st' m2)
  have "e \<ge> sent_timestamp m2 + network_delay (st r)"
    unfolding e f by simp
  then show "received_timestamp (st' r) \<ge> sent_timestamp (st' r) + network_delay (st r)"
    by (simp add: st')
  show "processed_timestamp (st' r) = received_timestamp (st' r) + receive_delay (st r)"
    by (simp add: st' f max_def)
  show "lst' = max lst (processed_timestamp (st' r))"
    by (simp add: st' lst')
  show "in_noc (st' r)"
    by (simp add: st' m2)
  show "(st' r)\<lparr>sent_timestamp := 0, received_timestamp := 0, processed_timestamp := 0, in_noc := False\<rparr>
        = (st r)\<lparr>sent_timestamp := 0, received_timestamp := 0, processed_timestamp := 0, in_noc := False\<rparr>"
    by (simp add: st' m2)
  show "x \<noteq> r \<Longrightarrow> st' x = st x"
    by (simp add: st')
qed

subsection \<open>One turn of the main loop\<close>

lemma schedule_next_effect:
  assumes "schedule_next r pq s (st2, nc2, l2) = Inr s'"
  shows "0 \<le> src_core_id (st2 r) \<and> nat (src_core_id (st2 r)) < length (messages_sent_per_core s)
    \<and> noc s' = nc2
    \<and> (case messages_sent_per_core s ! nat (src_core_id (st2 r)) of
          [] \<Rightarrow> sched_store s' = st2 \<and> priority s' = pq
                \<and> messages_sent_per_core s' = messages_sent_per_core s
                \<and> last_timestamp s' = l2
        | nxt # q \<Rightarrow>
            sched_store s' = st2(nxt := (st2 nxt)\<lparr>sent_timestamp :=
                                sent_timestamp (st2 r) + generation_delay (st2 nxt)\<rparr>)
            \<and> priority s' = pq @ [nxt]
            \<and> messages_sent_per_core s'
                = (messages_sent_per_core s)[nat (src_core_id (st2 r)) := q]
            \<and> last_timestamp s'
                = max l2 (sent_timestamp (st2 r) + generation_delay (st2 nxt)))"
  using assms
  by (auto simp add: schedule_next_def Let_def split: if_splits list.splits)

lemma schedule_step_Inr:
  assumes "schedule_step sched s = Inr s'"
  obtains st1 nc1 x where
    "schedule_update_noc (sent_timestamp (sched_store s (pq_top (sched_store s) (priority s))))
       (sched_store s, noc s) = (st1, nc1)"
    "(if \<not> placeholder (st1 (pq_top (sched_store s) (priority s)))
      then schedule_send sched (pq_top (sched_store s) (priority s))
             (st1, nc1, max (last_timestamp s)
                (sent_timestamp (sched_store s (pq_top (sched_store s) (priority s)))))
      else Inr (st1, nc1, max (last_timestamp s)
                (sent_timestamp (sched_store s (pq_top (sched_store s) (priority s)))))) = Inr x"
    "schedule_next (pq_top (sched_store s) (priority s))
       (remove1 (pq_top (sched_store s) (priority s)) (priority s)) s x = Inr s'"
proof -
  define r where "r = pq_top (sched_store s) (priority s)"
  obtain st1 nc1 where u: "schedule_update_noc (sent_timestamp (sched_store s r))
       (sched_store s, noc s) = (st1, nc1)"
    by (cases "schedule_update_noc (sent_timestamp (sched_store s r)) (sched_store s, noc s)")
  define res where "res = (if \<not> placeholder (st1 r)
      then schedule_send sched r (st1, nc1, max (last_timestamp s) (sent_timestamp (sched_store s r)))
      else Inr (st1, nc1, max (last_timestamp s) (sent_timestamp (sched_store s r))))"
  have step: "schedule_step sched s =
    (case res of Inl e \<Rightarrow> Inl e | Inr x \<Rightarrow> schedule_next r (remove1 r (priority s)) s x)"
    unfolding schedule_step_def Let_def r_def[symmetric] u prod.case res_def ..
  obtain x where x: "res = Inr x"
    using assms unfolding step by (cases res) simp_all
  have "schedule_next r (remove1 r (priority s)) s x = Inr s'"
    using assms unfolding step x by simp
  then show ?thesis
    using that[of st1 nc1 x] u x unfolding r_def res_def by simp
qed

text \<open>
  The back-pressure rule as the main loop applies it. A turn of the main loop that pops
  the message \<open>r\<close>, not a placeholder, with \<open>route_density\<close> the value that
  \<^verbatim>\<open>schedule_calculate_messages_along_route\<close> returns on the NoC as
  \<^verbatim>\<open>schedule_update_noc\<close> leaves it: the turn raises \<open>sent_timestamp\<close> by
  \<open>(route_density - (hops + 1) * buffer_size) * mean_in_flight_receive_delay\<close> when the route
  density exceeds \<open>(hops + 1) * buffer_size\<close>, and leaves it as it is otherwise. The
  product is a \<^verbatim>\<open>size_t\<close> and is taken not to wrap; the popped message is not also
  waiting in a per-core queue.
\<close>

theorem congestion_back_pressure:
  assumes "schedule_step sched s = Inr s'"
    and "r = pq_top (sched_store s) (priority s)"
    and "\<not> placeholder (sched_store s r)"
    and "r \<notin> set (concat (messages_sent_per_core s))"
    and "(hops (sched_store s r) + 1) * buffer_size sched < 2 ^ 64"
    and "schedule_update_noc (sent_timestamp (sched_store s r)) (sched_store s, noc s) = (st1, nc1)"
    and "schedule_calculate_messages_along_route (st1 r) nc1 = Inr route_density"
  shows "sent_timestamp (sched_store s' r) =
     (if route_density > real ((hops (sched_store s r) + 1) * buffer_size sched)
      then sent_timestamp (sched_store s r)
           + (route_density - real ((hops (sched_store s r) + 1) * buffer_size sched))
             * mean_in_flight_receive_delay nc1
      else sent_timestamp (sched_store s r))"
proof -
  note f = but_in_noc_fields[OF schedule_update_noc_but_in_noc[OF assms(6), of r]]
  from assms(1) obtain st1' nc1' x where
    u: "schedule_update_noc (sent_timestamp (sched_store s (pq_top (sched_store s) (priority s))))
       (sched_store s, noc s) = (st1', nc1')"
    and res: "(if \<not> placeholder (st1' (pq_top (sched_store s) (priority s)))
      then schedule_send sched (pq_top (sched_store s) (priority s))
             (st1', nc1', max (last_timestamp s)
                (sent_timestamp (sched_store s (pq_top (sched_store s) (priority s)))))
      else Inr (st1', nc1', max (last_timestamp s)
                (sent_timestamp (sched_store s (pq_top (sched_store s) (priority s)))))) = Inr x"
    and nx: "schedule_next (pq_top (sched_store s) (priority s))
       (remove1 (pq_top (sched_store s) (priority s)) (priority s)) s x = Inr s'"
    by (rule schedule_step_Inr)
  have eq: "st1' = st1" "nc1' = nc1"
    using u assms(6) unfolding assms(2) by simp_all
  obtain st2 nc2 l2 where x: "x = (st2, nc2, l2)" by (cases x)
  have send: "schedule_send sched r (st1, nc1, max (last_timestamp s) (sent_timestamp (sched_store s r)))
      = Inr (st2, nc2, l2)"
    using res assms(3) f(4) unfolding eq assms(2)[symmetric] x by simp
  have cap: "path_capacity sched (st1 r) = (hops (sched_store s r) + 1) * buffer_size sched"
    using assms(5) by (simp add: path_capacity_def f(5))
  from schedule_send_effect(1)[OF send] obtain d where
    d: "schedule_calculate_messages_along_route (st1 r) nc1 = Inr d"
    and sd: "sent_timestamp (st2 r) =
         (if d > real (path_capacity sched (st1 r))
          then sent_timestamp (st1 r)
               + (d - real (path_capacity sched (st1 r))) * mean_in_flight_receive_delay nc1
          else sent_timestamp (st1 r))"
    by blast
  have "d = route_density"
    using d assms(7) by simp
  then have sent2: "sent_timestamp (st2 r) =
         (if route_density > real (path_capacity sched (st1 r))
          then sent_timestamp (st1 r)
               + (route_density - real (path_capacity sched (st1 r)))
                 * mean_in_flight_receive_delay nc1
          else sent_timestamp (st1 r))"
    using sd by simp
  note n = schedule_next_effect[OF nx[unfolded x assms(2)[symmetric]]]
  have "sent_timestamp (sched_store s' r) = sent_timestamp (st2 r)"
  proof (cases "messages_sent_per_core s ! nat (src_core_id (st2 r))")
    case Nil
    then show ?thesis using n by simp
  next
    case (Cons nxt q)
    have "nxt \<in> set (messages_sent_per_core s ! nat (src_core_id (st2 r)))"
      by (simp add: Cons)
    moreover have "messages_sent_per_core s ! nat (src_core_id (st2 r))
        \<in> set (messages_sent_per_core s)"
      using n by simp
    ultimately have "nxt \<in> set (concat (messages_sent_per_core s))"
      by auto
    then have "nxt \<noteq> r" using assms(4) by auto
    then show ?thesis using n Cons by simp
  qed
  then show ?thesis
    unfolding sent2 cap f(1) by simp
qed

lemmas example_schedule_defs = example_congested_def example_sched_def example_spike_def
  example_placeholder_def example_message_def rep6

theorem congestion_back_pressure_witness:
  "pq_top (sched_store example_congested) (priority example_congested) = (0, 0)
   \<and> \<not> placeholder (sched_store example_congested (0, 0))
   \<and> (0, 0) \<notin> set (concat (messages_sent_per_core example_congested))
   \<and> (hops (sched_store example_congested (0, 0)) + 1) * buffer_size example_sched = 3
   \<and> schedule_calculate_messages_along_route (sched_store example_congested (0, 0))
        (noc example_congested) = Inr 6
   \<and> mean_in_flight_receive_delay (noc example_congested) = 5
   \<and> sent_timestamp (sched_store example_congested (0, 0)) = 1
   \<and> sent_timestamp (sched_store (projr (schedule_step example_sched example_congested)) (0, 0))
      = 16"
proof -
  have step: "schedule_step example_sched example_congested
      = Inr (projr (schedule_step example_sched example_congested))"
    by (simp add: schedule_defs example_schedule_defs)
  have top: "(0, 0) = pq_top (sched_store example_congested) (priority example_congested)"
    by (simp add: pq_top_def example_congested_def)
  have real: "\<not> placeholder (sched_store example_congested (0, 0))"
    by (simp add: initial_store_def example_schedule_defs)
  have fresh: "(0, 0) \<notin> set (concat (messages_sent_per_core example_congested))"
    by (simp add: example_schedule_defs)
  have cap: "(hops (sched_store example_congested (0, 0)) + 1) * buffer_size example_sched = 3"
    by (simp add: initial_store_def example_schedule_defs)
  have cap': "(hops (sched_store example_congested (0, 0)) + 1) * buffer_size example_sched < 2 ^ 64"
    unfolding cap by simp
  have upd: "schedule_update_noc (sent_timestamp (sched_store example_congested (0, 0)))
       (sched_store example_congested, noc example_congested)
      = (sched_store example_congested, noc example_congested)"
    by (simp add: schedule_update_noc_def initial_noc_def example_schedule_defs)
  have dens: "schedule_calculate_messages_along_route (sched_store example_congested (0, 0))
        (noc example_congested) = Inr 6"
    by (simp add: schedule_defs example_schedule_defs)
  have mean: "mean_in_flight_receive_delay (noc example_congested) = 5"
    and sent: "sent_timestamp (sched_store example_congested (0, 0)) = 1"
    by (simp_all add: initial_store_def example_schedule_defs)
  from congestion_back_pressure[OF step top real fresh cap' upd dens]
  have "sent_timestamp (sched_store (projr (schedule_step example_sched example_congested)) (0, 0))
      = 16"
    unfolding cap mean sent by simp
  then show ?thesis
    using top real fresh cap dens mean sent by simp
qed

text \<open>
  C1 on a message that travels two hops east on a mesh of three tiles with two cores
  each, from core offset 0 to core offset 1 of the last tile. The route has four links;
  the update adds \<open>1/4\<close> to three entries of the density vector only (the source's
  out-link, and the east link of the second and of the third tile), so that the vector
  sums to \<open>3/4\<close>, and it leaves the destination's in-link
  \<open>ndirections + dest_core_offset\<close> at zero.
\<close>

theorem density_update_misses_a_link:
  "hops example_spike = 2
   \<and> message_density
        (schedule_update_noc_message_counts example_spike (initial_noc example_sched) True)
      = [0, 0, 0, 0, 1/4, 0,  0, 1/4, 0, 0, 0, 0,  0, 1/4, 0, 0, 0, 0]
   \<and> sum_list (message_density
        (schedule_update_noc_message_counts example_spike (initial_noc example_sched) True))
      = 3/4
   \<and> idx (initial_noc example_sched) (dest_x example_spike) (dest_y example_spike)
        (ndirections + dest_core_offset example_spike) = 17
   \<and> message_density
        (schedule_update_noc_message_counts example_spike (initial_noc example_sched) True) ! 17
      = 0"
  by (simp add: schedule_defs example_sched_def example_spike_def example_message_def rep6)

subsection \<open>The messages that wait\<close>

lemma static_fields:
  assumes "static m' = static m"
  shows "placeholder m' = placeholder m" "hops m' = hops m"
    "generation_delay m' = generation_delay m" "network_delay m' = network_delay m"
    "receive_delay m' = receive_delay m" "src_core_id m' = src_core_id m"
    "dest_core_id m' = dest_core_id m"
  using arg_cong[OF assms, of placeholder] arg_cong[OF assms, of hops]
    arg_cong[OF assms, of generation_delay] arg_cong[OF assms, of network_delay]
    arg_cong[OF assms, of receive_delay] arg_cong[OF assms, of src_core_id]
    arg_cong[OF assms, of dest_core_id]
  by (simp_all add: static_def)

lemma static_but_in_noc: "but_in_noc m' = but_in_noc m \<Longrightarrow> static m' = static m"
proof -
  assume "but_in_noc m' = but_in_noc m"
  then have "static (but_in_noc m') = static (but_in_noc m)" by simp
  then show ?thesis by (simp add: static_def but_in_noc_def)
qed

lemma mset_concat_update:
  assumes "i < length qs" and "qs ! i = x # q"
  shows "mset (concat (qs[i := q])) + {#x#} = mset (concat qs)"
proof -
  have a: "qs = take i qs @ (x # q) # drop (Suc i) qs"
    using assms by (metis id_take_nth_drop)
  have b: "qs[i := q] = take i qs @ q # drop (Suc i) qs"
    using assms(1) by (simp add: upd_conv_take_nth_drop)
  have "mset (concat qs) = mset (concat (take i qs)) + ({#x#} + mset q)
      + mset (concat (drop (Suc i) qs))"
    by (subst a) simp
  moreover have "mset (concat (qs[i := q])) = mset (concat (take i qs)) + mset q
      + mset (concat (drop (Suc i) qs))"
    by (subst b) simp
  ultimately show ?thesis by simp
qed

lemma schedule_next_waiting:
  assumes "schedule_next r pq s x = Inr s'"
  shows "mset (waiting s') = mset pq + mset (concat (messages_sent_per_core s))"
proof -
  obtain st2 nc2 l2 where x: "x = (st2, nc2, l2)" by (cases x)
  note n = schedule_next_effect[OF assms[unfolded x]]
  show ?thesis
  proof (cases "messages_sent_per_core s ! nat (src_core_id (st2 r))")
    case Nil
    then show ?thesis using n by (simp add: waiting_def)
  next
    case (Cons nxt q)
    have "mset (concat ((messages_sent_per_core s)[nat (src_core_id (st2 r)) := q])) + {#nxt#}
        = mset (concat (messages_sent_per_core s))"
      using n Cons by (intro mset_concat_update) simp_all
    then show ?thesis using n Cons by (simp add: waiting_def)
  qed
qed

lemma schedule_step_waiting:
  assumes "schedule_step sched s = Inr s'" and "priority s \<noteq> []"
  shows "mset (waiting s') + {#pq_top (sched_store s) (priority s)#} = mset (waiting s)"
proof -
  define r where "r = pq_top (sched_store s) (priority s)"
  have r: "r \<in> set (priority s)"
    unfolding r_def using assms(2) by (rule pq_top_in)
  from assms(1) obtain st1 nc1 x where
    "schedule_next r (remove1 r (priority s)) s x = Inr s'"
    unfolding r_def by (rule schedule_step_Inr)
  from schedule_next_waiting[OF this]
  have "mset (waiting s') = mset (remove1 r (priority s)) + mset (concat (messages_sent_per_core s))" .
  then show ?thesis
    using r unfolding r_def[symmetric] by (simp add: waiting_def)
qed

lemma schedule_step_distinct:
  assumes "schedule_step sched s = Inr s'" and "priority s \<noteq> []" and "distinct (waiting s)"
  shows "distinct (waiting s')"
    and "pq_top (sched_store s) (priority s) \<notin> set (waiting s')"
    and "set (waiting s') \<subseteq> set (waiting s)"
proof -
  define r where "r = pq_top (sched_store s) (priority s)"
  have m: "mset (r # waiting s') = mset (waiting s)"
    using schedule_step_waiting[OF assms(1,2)] unfolding r_def by simp
  have d: "distinct (r # waiting s')"
    using mset_eq_imp_distinct_iff[OF m] assms(3) by simp
  show "distinct (waiting s')" using d by simp
  show "pq_top (sched_store s) (priority s) \<notin> set (waiting s')"
    using d unfolding r_def by simp
  show "set (waiting s') \<subseteq> set (waiting s)"
    using mset_eq_setD[OF m] by auto
qed

subsection \<open>What a turn of the main loop does to the messages\<close>

lemma schedule_step_cases:
  assumes "schedule_step sched s = Inr s'"
  obtains st1 nc1 st2 nc2 l2 where
    "schedule_update_noc (sent_timestamp (sched_store s (pq_top (sched_store s) (priority s))))
       (sched_store s, noc s) = (st1, nc1)"
    "placeholder (sched_store s (pq_top (sched_store s) (priority s))) \<longrightarrow>
       st2 = st1 \<and> nc2 = nc1
       \<and> l2 = max (last_timestamp s)
                  (sent_timestamp (sched_store s (pq_top (sched_store s) (priority s))))"
    "\<not> placeholder (sched_store s (pq_top (sched_store s) (priority s))) \<longrightarrow>
       schedule_send sched (pq_top (sched_store s) (priority s))
         (st1, nc1, max (last_timestamp s)
            (sent_timestamp (sched_store s (pq_top (sched_store s) (priority s)))))
       = Inr (st2, nc2, l2)"
    "schedule_next (pq_top (sched_store s) (priority s))
       (remove1 (pq_top (sched_store s) (priority s)) (priority s)) s (st2, nc2, l2) = Inr s'"
proof -
  define r where "r = pq_top (sched_store s) (priority s)"
  from assms obtain st1 nc1 x where
    u: "schedule_update_noc (sent_timestamp (sched_store s r)) (sched_store s, noc s) = (st1, nc1)"
    and res: "(if \<not> placeholder (st1 r)
      then schedule_send sched r (st1, nc1, max (last_timestamp s) (sent_timestamp (sched_store s r)))
      else Inr (st1, nc1, max (last_timestamp s) (sent_timestamp (sched_store s r)))) = Inr x"
    and nx: "schedule_next r (remove1 r (priority s)) s x = Inr s'"
    unfolding r_def by (rule schedule_step_Inr)
  have p: "placeholder (st1 r) = placeholder (sched_store s r)"
    using but_in_noc_fields(4)[OF schedule_update_noc_but_in_noc[OF u, of r]] .
  obtain st2 nc2 l2 where x: "x = (st2, nc2, l2)" by (cases x)
  show ?thesis
  proof (rule that[of st1 nc1 st2 nc2 l2, folded r_def])
    show "schedule_update_noc (sent_timestamp (sched_store s r)) (sched_store s, noc s) = (st1, nc1)"
      by (rule u)
    show "placeholder (sched_store s r) \<longrightarrow>
       st2 = st1 \<and> nc2 = nc1 \<and> l2 = max (last_timestamp s) (sent_timestamp (sched_store s r))"
      using res p x by auto
    show "\<not> placeholder (sched_store s r) \<longrightarrow>
       schedule_send sched r (st1, nc1, max (last_timestamp s) (sent_timestamp (sched_store s r)))
       = Inr (st2, nc2, l2)"
      using res p x by auto
    show "schedule_next r (remove1 r (priority s)) s (st2, nc2, l2) = Inr s'"
      using nx x by simp
  qed
qed

lemma schedule_next_store:
  assumes "schedule_next r pq s (st2, nc2, l2) = Inr s'"
  shows "static (sched_store s' x) = static (st2 x)"
    and "x \<notin> set (priority s') \<Longrightarrow> sched_store s' x = st2 x"
    and "x \<notin> set (concat (messages_sent_per_core s)) \<Longrightarrow> sched_store s' x = st2 x"
proof -
  note n = schedule_next_effect[OF assms]
  show "static (sched_store s' x) = static (st2 x)"
    using n by (cases "messages_sent_per_core s ! nat (src_core_id (st2 r))")
      (simp_all add: static_def)
  show "x \<notin> set (priority s') \<Longrightarrow> sched_store s' x = st2 x"
    using n by (cases "messages_sent_per_core s ! nat (src_core_id (st2 r))") auto
  show "x \<notin> set (concat (messages_sent_per_core s)) \<Longrightarrow> sched_store s' x = st2 x"
  proof (cases "messages_sent_per_core s ! nat (src_core_id (st2 r))")
    case Nil
    then show ?thesis using n by simp
  next
    case (Cons nxt q)
    assume x: "x \<notin> set (concat (messages_sent_per_core s))"
    have "nxt \<in> set (messages_sent_per_core s ! nat (src_core_id (st2 r)))"
      by (simp add: Cons)
    moreover have "messages_sent_per_core s ! nat (src_core_id (st2 r))
        \<in> set (messages_sent_per_core s)"
      using n by simp
    ultimately have "nxt \<in> set (concat (messages_sent_per_core s))"
      by auto
    then have "nxt \<noteq> x" using x by auto
    then show ?thesis using n Cons by simp
  qed
qed

lemma schedule_step_static:
  assumes "schedule_step sched s = Inr s'"
  shows "static (sched_store s' x) = static (sched_store s x)"
proof -
  define r where "r = pq_top (sched_store s) (priority s)"
  from assms obtain st1 nc1 st2 nc2 l2 where
    u: "schedule_update_noc (sent_timestamp (sched_store s r)) (sched_store s, noc s) = (st1, nc1)"
    and ph': "placeholder (sched_store s r) \<longrightarrow>
       st2 = st1 \<and> nc2 = nc1 \<and> l2 = max (last_timestamp s) (sent_timestamp (sched_store s r))"
    and send': "\<not> placeholder (sched_store s r) \<longrightarrow>
       schedule_send sched r (st1, nc1, max (last_timestamp s) (sent_timestamp (sched_store s r)))
       = Inr (st2, nc2, l2)"
    and nx: "schedule_next r (remove1 r (priority s)) s (st2, nc2, l2) = Inr s'"
    unfolding r_def by (rule schedule_step_cases)
  note ph = ph'[rule_format] and send = send'[rule_format]
  have 1: "static (st1 x) = static (sched_store s x)"
    using schedule_update_noc_but_in_noc[OF u, of x] by (rule static_but_in_noc)
  have 2: "static (st2 x) = static (st1 x)"
  proof (cases "placeholder (sched_store s r)")
    case True
    then show ?thesis using ph by simp
  next
    case False
    show ?thesis
    proof (cases "x = r")
      case True
      then show ?thesis
        using schedule_send_effect(6)[OF send[OF False]] by (simp add: static_def)
    next
      case False
      then show ?thesis
        using schedule_send_effect(7)[OF send[OF \<open>\<not> placeholder (sched_store s r)\<close>], of x] by simp
    qed
  qed
  show ?thesis
    using schedule_next_store(1)[OF nx, of x] 1 2 by simp
qed

lemma schedule_step_others:
  assumes "schedule_step sched s = Inr s'"
    and "x \<noteq> pq_top (sched_store s) (priority s)" and "x \<notin> set (priority s')"
  shows "but_in_noc (sched_store s' x) = but_in_noc (sched_store s x)"
proof -
  define r where "r = pq_top (sched_store s) (priority s)"
  from assms(1) obtain st1 nc1 st2 nc2 l2 where
    u: "schedule_update_noc (sent_timestamp (sched_store s r)) (sched_store s, noc s) = (st1, nc1)"
    and ph': "placeholder (sched_store s r) \<longrightarrow>
       st2 = st1 \<and> nc2 = nc1 \<and> l2 = max (last_timestamp s) (sent_timestamp (sched_store s r))"
    and send': "\<not> placeholder (sched_store s r) \<longrightarrow>
       schedule_send sched r (st1, nc1, max (last_timestamp s) (sent_timestamp (sched_store s r)))
       = Inr (st2, nc2, l2)"
    and nx: "schedule_next r (remove1 r (priority s)) s (st2, nc2, l2) = Inr s'"
    unfolding r_def by (rule schedule_step_cases)
  note ph = ph'[rule_format] and send = send'[rule_format]
  have 1: "but_in_noc (st1 x) = but_in_noc (sched_store s x)"
    by (rule schedule_update_noc_but_in_noc[OF u])
  have 2: "st2 x = st1 x"
  proof (cases "placeholder (sched_store s r)")
    case True
    then show ?thesis using ph by simp
  next
    case False
    then show ?thesis
      using schedule_send_effect(7)[OF send[OF False], of x] assms(2) unfolding r_def by simp
  qed
  show ?thesis
    using schedule_next_store(2)[OF nx assms(3)] 1 2 by simp
qed

lemma schedule_step_popped:
  assumes "schedule_step sched s = Inr s'"
    and "r = pq_top (sched_store s) (priority s)"
    and "r \<notin> set (concat (messages_sent_per_core s))"
  shows "placeholder (sched_store s r) \<Longrightarrow>
           but_in_noc (sched_store s' r) = but_in_noc (sched_store s r)"
    and "\<not> placeholder (sched_store s r) \<Longrightarrow>
           sent_timestamp (sched_store s' r) + network_delay (sched_store s r)
             \<le> received_timestamp (sched_store s' r)
           \<and> processed_timestamp (sched_store s' r)
               = received_timestamp (sched_store s' r) + receive_delay (sched_store s r)"
proof -
  from assms(1) obtain st1 nc1 st2 nc2 l2 where
    u: "schedule_update_noc (sent_timestamp (sched_store s r)) (sched_store s, noc s) = (st1, nc1)"
    and ph': "placeholder (sched_store s r) \<longrightarrow>
       st2 = st1 \<and> nc2 = nc1 \<and> l2 = max (last_timestamp s) (sent_timestamp (sched_store s r))"
    and send': "\<not> placeholder (sched_store s r) \<longrightarrow>
       schedule_send sched r (st1, nc1, max (last_timestamp s) (sent_timestamp (sched_store s r)))
       = Inr (st2, nc2, l2)"
    and nx: "schedule_next r (remove1 r (priority s)) s (st2, nc2, l2) = Inr s'"
    unfolding assms(2) by (rule schedule_step_cases)
  note ph = ph'[rule_format] and send = send'[rule_format]
  have same: "sched_store s' r = st2 r"
    by (rule schedule_next_store(3)[OF nx assms(3)])
  note f = but_in_noc_fields[OF schedule_update_noc_but_in_noc[OF u, of r]]
  show "placeholder (sched_store s r) \<Longrightarrow>
           but_in_noc (sched_store s' r) = but_in_noc (sched_store s r)"
    using ph schedule_update_noc_but_in_noc[OF u, of r] same by simp
  show "\<not> placeholder (sched_store s r) \<Longrightarrow>
           sent_timestamp (sched_store s' r) + network_delay (sched_store s r)
             \<le> received_timestamp (sched_store s' r)
           \<and> processed_timestamp (sched_store s' r)
               = received_timestamp (sched_store s' r) + receive_delay (sched_store s r)"
    using schedule_send_effect(2,3)[OF send] same f(7,8) by simp
qed

subsection \<open>The timestamps of the scheduled messages\<close>

lemma but_in_noc_ordered:
  "but_in_noc m' = but_in_noc m \<Longrightarrow> timestamps_ordered m' = timestamps_ordered m"
  using but_in_noc_fields(1,2,3)[of m' m] by (simp add: timestamps_ordered_def)

lemma schedule_step_priority:
  assumes "schedule_step sched s = Inr s'"
  shows "set (priority s) - {pq_top (sched_store s) (priority s)} \<subseteq> set (priority s')"
proof -
  define r where "r = pq_top (sched_store s) (priority s)"
  from assms obtain st1 nc1 x where
    nx: "schedule_next r (remove1 r (priority s)) s x = Inr s'"
    unfolding r_def by (rule schedule_step_Inr)
  obtain st2 nc2 l2 where x: "x = (st2, nc2, l2)" by (cases x)
  note n = schedule_next_effect[OF nx[unfolded x]]
  have "set (remove1 r (priority s)) \<subseteq> set (priority s')"
    using n by (cases "messages_sent_per_core s ! nat (src_core_id (st2 r))") auto
  moreover have "set (priority s) - {r} \<subseteq> set (remove1 r (priority s))"
    by (metis Diff_subset_conv insert_is_Un set_remove1_subset subsetI
        in_set_remove1 Diff_iff singletonI)
  ultimately show ?thesis unfolding r_def by blast
qed

lemma schedule_step_ordered_inv:
  assumes step: "schedule_step sched s = Inr s'" and ne: "priority s \<noteq> []"
    and inv: "ordered_inv msgs s"
    and nonneg: "\<forall>x \<in> valid_refs msgs. 0 \<le> network_delay (initial_store msgs x)
                   \<and> 0 \<le> receive_delay (initial_store msgs x)"
  shows "ordered_inv msgs s'"
proof -
  define r where "r = pq_top (sched_store s) (priority s)"
  have d: "distinct (waiting s)" and sub: "set (waiting s) \<subseteq> valid_refs msgs"
    and st: "\<And>x. static (sched_store s x) = static (initial_store msgs x)"
    and ord: "\<And>x. x \<in> valid_refs msgs \<Longrightarrow> x \<notin> set (priority s)
                \<Longrightarrow> \<not> placeholder (sched_store s x) \<Longrightarrow> timestamps_ordered (sched_store s x)"
    using inv by (auto simp add: ordered_inv_def)
  have r_in: "r \<in> set (priority s)"
    unfolding r_def using ne by (rule pq_top_in)
  then have r_valid: "r \<in> valid_refs msgs"
    using sub by (auto simp add: waiting_def)
  have r_fresh: "r \<notin> set (concat (messages_sent_per_core s))"
    using d r_in by (auto simp add: waiting_def)
  note dist = schedule_step_distinct[OF step ne d, folded r_def]
  have 1: "distinct (waiting s')" by (rule dist(1))
  have 2: "set (waiting s') \<subseteq> valid_refs msgs"
    using dist(3) sub by blast
  have 3: "static (sched_store s' x) = static (initial_store msgs x)" for x
    using schedule_step_static[OF step, of x] st[of x] by simp
  have 4: "timestamps_ordered (sched_store s' x)"
    if x: "x \<in> valid_refs msgs" "x \<notin> set (priority s')" "\<not> placeholder (sched_store s' x)" for x
  proof (cases "x = r")
    case True
    have np: "\<not> placeholder (sched_store s r)"
      using x(3) static_fields(1)[OF schedule_step_static[OF step, of r]] True by simp
    have f: "network_delay (sched_store s r) = network_delay (initial_store msgs r)"
      "receive_delay (sched_store s r) = receive_delay (initial_store msgs r)"
      using static_fields(4,5)[OF st[of r]] by simp_all
    have "0 \<le> network_delay (sched_store s r)" "0 \<le> receive_delay (sched_store s r)"
      using nonneg r_valid unfolding f by simp_all
    then show ?thesis
      using schedule_step_popped(2)[OF step r_def r_fresh np] True
      by (simp add: timestamps_ordered_def)
  next
    case False
    have "x \<notin> set (priority s)"
      using schedule_step_priority[OF step] x(2) False unfolding r_def by auto
    moreover have "placeholder (sched_store s x) = placeholder (sched_store s' x)"
      using static_fields(1)[OF schedule_step_static[OF step, of x]] by simp
    ultimately have "timestamps_ordered (sched_store s x)"
      using ord[OF x(1)] x(3) by simp
    then show ?thesis
      using but_in_noc_ordered[OF schedule_step_others[OF step False[unfolded r_def] x(2)]] by simp
  qed
  show ?thesis
    unfolding ordered_inv_def using 1 2 3 4 by blast
qed

lemma schedule_loop_ordered_inv:
  assumes "schedule_loop sched s = Inr s'" and "ordered_inv msgs s"
    and nonneg: "\<forall>x \<in> valid_refs msgs. 0 \<le> network_delay (initial_store msgs x)
                   \<and> 0 \<le> receive_delay (initial_store msgs x)"
  shows "ordered_inv msgs s' \<and> priority s' = []"
  using assms(1,2)
proof (induction sched s rule: schedule_loop.induct)
  case (1 sched s)
  show ?case
  proof (cases "priority s = []")
    case True
    then show ?thesis using "1.prems" by (simp add: schedule_loop.simps[of sched s])
  next
    case False
    then obtain s1 where step: "schedule_step sched s = Inr s1"
      and loop: "schedule_loop sched s1 = Inr s'"
      using "1.prems"(1) by (simp add: schedule_loop.simps[of sched s] split: sum.splits)
    have "ordered_inv msgs s1"
      using step False "1.prems"(2) nonneg by (rule schedule_step_ordered_inv)
    then show ?thesis
      using "1.IH"[OF False step loop] by simp
  qed
qed

lemma static_sent_timestamp [simp]: "static (m\<lparr>sent_timestamp := v\<rparr>) = static m"
  by (simp add: static_def)

lemma init_queues_effect:
  "init_queues qs (st, pq) = (qs', st', pq') \<Longrightarrow>
     mset pq' + mset (concat qs') = mset pq + mset (concat qs)
     \<and> (\<forall>x. static (st' x) = static (st x))
     \<and> (\<forall>x. x \<notin> set pq' \<longrightarrow> st' x = st x)
     \<and> set pq \<subseteq> set pq'"
proof (induction qs arbitrary: st pq qs' st' pq')
  case Nil
  then show ?case by simp
next
  case (Cons q qs)
  show ?case
  proof (cases q)
    case Nil
    obtain qs1 st1 pq1 where r: "init_queues qs (st, pq) = (qs1, st1, pq1)"
      by (cases "init_queues qs (st, pq)")
    have "qs' = [] # qs1" "st' = st1" "pq' = pq1"
      using Cons.prems Nil r by simp_all
    then show ?thesis using Cons.IH[OF r] Nil by simp
  next
    case (Cons r q1)
    define st0 where "st0 = st(r := (st r)\<lparr>sent_timestamp := generation_delay (st r)\<rparr>)"
    obtain qs1 st1 pq1 where i: "init_queues qs (st0, pq @ [r]) = (qs1, st1, pq1)"
      by (cases "init_queues qs (st0, pq @ [r])")
    have e: "qs' = q1 # qs1" "st' = st1" "pq' = pq1"
      using Cons.prems Cons i by (simp_all add: st0_def[symmetric] Let_def)
    note ih = Cons.IH[OF i]
    have ih1: "mset pq1 + mset (concat qs1) = mset (pq @ [r]) + mset (concat qs)"
      and ih2: "\<And>x. static (st1 x) = static (st0 x)"
      and ih3: "\<And>x. x \<notin> set pq1 \<Longrightarrow> st1 x = st0 x"
      and ih4: "set (pq @ [r]) \<subseteq> set pq1"
      using ih by blast+
    have a: "mset pq' + mset (concat qs') = mset pq + mset (concat (q # qs))"
      using ih1 e Cons by simp
    have b: "static (st' x) = static (st x)" for x
      unfolding e ih2 by (simp add: st0_def)
    have c: "r \<in> set pq'" "set pq \<subseteq> set pq'"
      using ih4 e by auto
    have d: "st' x = st x" if "x \<notin> set pq'" for x
    proof -
      have "x \<noteq> r" using that c(1) by auto
      then show ?thesis using ih3[of x] that e by (simp add: st0_def)
    qed
    show ?thesis using a b c d by blast
  qed
qed

lemma distinct_message_refs:
  "distinct (concat (map (\<lambda>c. if c < length msgs then message_refs msgs c else []) [0..<n]))
   \<and> set (concat (map (\<lambda>c. if c < length msgs then message_refs msgs c else []) [0..<n]))
       \<subseteq> valid_refs msgs \<inter> {x. fst x < n}"
proof (induction n)
  case 0
  then show ?case by simp
next
  case (Suc n)
  have a: "distinct (if n < length msgs then message_refs msgs n else [])"
    by (simp add: message_refs_def distinct_map inj_on_def)
  have b: "set (if n < length msgs then message_refs msgs n else [])
      \<subseteq> valid_refs msgs \<inter> {x. fst x = n}"
    by (auto simp add: message_refs_def valid_refs_def)
  show ?case
    using Suc a b by (auto simp del: upt_Suc simp add: upt_Suc_append)
qed

lemma initial_state_ordered_inv:
  assumes "\<forall>x \<in> valid_refs msgs. \<not> placeholder (initial_store msgs x)
             \<longrightarrow> timestamps_ordered (initial_store msgs x)"
  shows "ordered_inv msgs (initial_state msgs sched)"
proof -
  define fifos where "fifos = map (\<lambda>c. if c < length msgs then message_refs msgs c else [])
                            [0..<core_count sched]"
  obtain qs st pq where i: "init_queues fifos (initial_store msgs, []) = (qs, st, pq)"
    by (cases "init_queues fifos (initial_store msgs, [])")
  have s0: "initial_state msgs sched = \<lparr>sched_store = st, priority = pq,
      messages_sent_per_core = qs, noc = initial_noc sched, last_timestamp = 0\<rparr>"
    by (simp add: initial_state_def schedule_init_timing_priority_def fifos_def[symmetric] i)
  note e0 = init_queues_effect[OF i]
  have e1: "mset pq + mset (concat qs) = mset [] + mset (concat fifos)"
    and e2: "\<And>x. static (st x) = static (initial_store msgs x)"
    and e3: "\<And>x. x \<notin> set pq \<Longrightarrow> st x = initial_store msgs x"
    using e0 by blast+
  have m: "mset (waiting (initial_state msgs sched)) = mset (concat fifos)"
    using e1 by (simp add: s0 waiting_def)
  have 1: "distinct (waiting (initial_state msgs sched))"
    using mset_eq_imp_distinct_iff[OF m] distinct_message_refs[of msgs "core_count sched"]
    by (simp add: fifos_def)
  have "set (waiting (initial_state msgs sched)) = set (concat fifos)"
    using m by (rule mset_eq_setD)
  then have 2: "set (waiting (initial_state msgs sched)) \<subseteq> valid_refs msgs"
    using distinct_message_refs[of msgs "core_count sched"] by (simp add: fifos_def)
  have 3: "static (sched_store (initial_state msgs sched) x) = static (initial_store msgs x)" for x
    using e2 by (simp add: s0)
  have 4: "timestamps_ordered (sched_store (initial_state msgs sched) x)"
    if "x \<in> valid_refs msgs" "x \<notin> set (priority (initial_state msgs sched))"
      "\<not> placeholder (sched_store (initial_state msgs sched) x)" for x
  proof -
    have "sched_store (initial_state msgs sched) x = initial_store msgs x"
      using e3[of x] that(2) by (simp add: s0)
    then show ?thesis using assms that(1,3) by simp
  qed
  show ?thesis
    unfolding ordered_inv_def using 1 2 3 4 by blast
qed

lemma initial_store_in:
  "x \<in> valid_refs msgs \<Longrightarrow> \<exists>q \<in> set msgs. initial_store msgs x \<in> set q"
  by (cases x) (auto simp add: valid_refs_def initial_store_def intro!: bexI[of _ "msgs ! fst x"])

lemma scheduled_messages_in:
  assumes "q \<in> set (scheduled_messages st msgs)" and "m \<in> set q"
  shows "\<exists>x \<in> valid_refs msgs. m = st x"
proof -
  from assms obtain c i where "c < length msgs" "i < length (msgs ! c)" "m = st (c, i)"
    by (auto simp add: scheduled_messages_def)
  then have "(c, i) \<in> valid_refs msgs" "m = st (c, i)"
    by (simp_all add: valid_refs_def)
  then show ?thesis by blast
qed

text \<open>
  C7. Let every message of the argument have a non-negative \<open>network_delay\<close> and
  \<open>receive_delay\<close>, and timestamps in order, as the equal defaults of a new message are.
  If \<open>schedule_messages\<close> returns, then every message that is not a placeholder has
  \<open>sent_timestamp \<le> received_timestamp \<le> processed_timestamp\<close> afterwards. (The sign of
  \<open>generation_delay\<close> plays no role.)
\<close>

theorem scheduled_timestamps_ordered:
  assumes "schedule_messages msgs sched = Inr (t, out)"
    and "\<forall>q \<in> set msgs. \<forall>m \<in> set q. 0 \<le> network_delay m \<and> 0 \<le> receive_delay m
           \<and> sent_timestamp m \<le> received_timestamp m
           \<and> received_timestamp m \<le> processed_timestamp m"
  shows "\<forall>q \<in> set out. \<forall>m \<in> set q. \<not> placeholder m \<longrightarrow>
           sent_timestamp m \<le> received_timestamp m
           \<and> received_timestamp m \<le> processed_timestamp m"
proof -
  from assms(1) obtain s where loop: "schedule_loop sched (initial_state msgs sched) = Inr s"
    and out: "out = scheduled_messages (sched_store s) msgs"
    by (auto simp add: schedule_messages_def split: if_splits sum.splits)
  have init: "0 \<le> network_delay (initial_store msgs x) \<and> 0 \<le> receive_delay (initial_store msgs x)
      \<and> timestamps_ordered (initial_store msgs x)" if "x \<in> valid_refs msgs" for x
    using initial_store_in[OF that] assms(2) by (auto simp add: timestamps_ordered_def)
  have "ordered_inv msgs (initial_state msgs sched)"
    using init by (intro initial_state_ordered_inv) simp
  with loop have inv: "ordered_inv msgs s" and empty: "priority s = []"
    using schedule_loop_ordered_inv[of sched "initial_state msgs sched" s msgs] init by simp_all
  show ?thesis
  proof (intro ballI impI)
    fix q m assume "q \<in> set out" "m \<in> set q" and np: "\<not> placeholder m"
    then obtain x where x: "x \<in> valid_refs msgs" "m = sched_store s x"
      using scheduled_messages_in unfolding out by blast
    have "timestamps_ordered (sched_store s x)"
      using inv x np empty by (simp add: ordered_inv_def)
    then show "sent_timestamp m \<le> received_timestamp m
        \<and> received_timestamp m \<le> processed_timestamp m"
      using x(2) by (simp add: timestamps_ordered_def)
  qed
qed

lemma example_run_schedule:
  "map_sum id (\<lambda>(t, ms). (t, map (map (\<lambda>m. (placeholder m, sent_timestamp m,
        received_timestamp m, processed_timestamp m))) ms))
     (schedule_messages example_run example_sched)
   = Inr (100, [[(False, 1, 3, 6), (False, 2, 6, 9)], [(True, 100, 0, 0)]])"
  by (simp add: schedule_defs example_run_def example_sched_def example_spike_def
      example_message_def example_placeholder_def upt_rec rep6)

theorem scheduled_timestamps_ordered_witness:
  "schedule_messages example_run example_sched
     = Inr (100, snd (projr (schedule_messages example_run example_sched)))
   \<and> list_all (list_all (\<lambda>m. 0 \<le> network_delay m \<and> 0 \<le> receive_delay m
        \<and> sent_timestamp m \<le> received_timestamp m
        \<and> received_timestamp m \<le> processed_timestamp m)) example_run
   \<and> map (map (\<lambda>m. (placeholder m, sent_timestamp m)))
        (snd (projr (schedule_messages example_run example_sched)))
      = [[(False, 1), (False, 2)], [(True, 100)]]
   \<and> sent_timestamp (snd (projr (schedule_messages example_run example_sched)) ! 0 ! 1)
      \<le> received_timestamp (snd (projr (schedule_messages example_run example_sched)) ! 0 ! 1)
   \<and> received_timestamp (snd (projr (schedule_messages example_run example_sched)) ! 0 ! 1)
      \<le> processed_timestamp (snd (projr (schedule_messages example_run example_sched)) ! 0 ! 1)"
proof -
  define out where "out = snd (projr (schedule_messages example_run example_sched))"
  have run: "schedule_messages example_run example_sched = Inr (100, out)"
    using example_run_schedule unfolding out_def
    by (cases "schedule_messages example_run example_sched") auto
  have shape: "map (map (\<lambda>m. (placeholder m, sent_timestamp m))) out
      = [[(False, 1), (False, 2)], [(True, 100)]]"
  proof -
    have "map (map (\<lambda>m. (placeholder m, sent_timestamp m))) out
        = map (map (\<lambda>(p, s, r, d). (p, s)))
            (map (map (\<lambda>m. (placeholder m, sent_timestamp m,
                received_timestamp m, processed_timestamp m))) out)"
      by (simp add: comp_def)
    also have "\<dots> = [[(False, 1), (False, 2)], [(True, 100)]]"
      using example_run_schedule unfolding run by simp
    finally show ?thesis .
  qed
  have input: "list_all (list_all (\<lambda>m. 0 \<le> network_delay m \<and> 0 \<le> receive_delay m
        \<and> sent_timestamp m \<le> received_timestamp m
        \<and> received_timestamp m \<le> processed_timestamp m)) example_run"
    by (simp add: example_run_def example_spike_def example_placeholder_def example_message_def)
  have input': "\<forall>q \<in> set example_run. \<forall>m \<in> set q. 0 \<le> network_delay m \<and> 0 \<le> receive_delay m
        \<and> sent_timestamp m \<le> received_timestamp m
        \<and> received_timestamp m \<le> processed_timestamp m"
    using input by (simp add: list_all_iff)
  have len: "length out = 2" "length (out ! 0) = 2"
    using arg_cong[OF shape, of length] arg_cong[OF shape, of "\<lambda>l. length (l ! 0)"]
    by (simp_all add: nth_map)
  have np: "\<not> placeholder (out ! 0 ! 1)"
    using arg_cong[OF shape, of "\<lambda>l. fst (l ! 0 ! 1)"] len by (simp add: nth_map)
  have mem: "out ! 0 \<in> set out" "out ! 0 ! 1 \<in> set (out ! 0)"
    using len by simp_all
  from scheduled_timestamps_ordered[OF run input'] mem np
  have "sent_timestamp (out ! 0 ! 1) \<le> received_timestamp (out ! 0 ! 1)
      \<and> received_timestamp (out ! 0 ! 1) \<le> processed_timestamp (out ! 0 ! 1)"
    by blast
  then show ?thesis
    using run shape input unfolding out_def[symmetric] by simp
qed

subsection \<open>The returned timestep latency\<close>

lemma message_counts_fields:
  "messages_in_noc (schedule_update_noc_message_counts m nc b)
     = (if b then messages_in_noc nc + 1 else messages_in_noc nc - 1)"
  "mean_in_flight_receive_delay (schedule_update_noc_message_counts m nc b)
     = (if b then mean_in_flight_receive_delay nc
                  + (receive_delay m - mean_in_flight_receive_delay nc)
                    / (real_of_int (messages_in_noc nc) + 1)
        else if messages_in_noc nc > 1
             then mean_in_flight_receive_delay nc
                  + (mean_in_flight_receive_delay nc - receive_delay m)
                    / (real_of_int (messages_in_noc nc) - 1)
             else 0)"
  "messages_received (schedule_update_noc_message_counts m nc b) = messages_received nc"
  "core_finished_receiving (schedule_update_noc_message_counts m nc b)
     = core_finished_receiving nc"
  by (simp_all add: schedule_update_noc_message_counts_def Let_def split: prod.splits)

lemma mean_inv_message_in:
  assumes "mean_inv rd nc M" and "receive_delay m = rd r"
  shows "mean_inv rd (schedule_update_noc_message_counts m nc True) (add_mset r M)"
proof -
  have n: "messages_in_noc nc = int (size M)"
    and s: "mean_in_flight_receive_delay nc * real (size M) = (\<Sum>r\<in>#M. rd r)"
    using assms(1) by (simp_all add: mean_inv_def)
  have "(mean_in_flight_receive_delay nc
          + (rd r - mean_in_flight_receive_delay nc) / (real (size M) + 1)) * (real (size M) + 1)
        = mean_in_flight_receive_delay nc * real (size M) + rd r"
    by (simp add: field_simps)
  then show ?thesis
    using n s assms(2) by (simp add: mean_inv_def message_counts_fields add.commute)
qed

lemma mean_inv_message_out:
  assumes "mean_inv rd nc (add_mset r M)" and "receive_delay m = rd r"
  shows "mean_inv rd (schedule_update_noc_message_counts m nc False) M"
proof -
  define a where "a = mean_in_flight_receive_delay nc"
  define k where "k = real (size M)"
  have n: "messages_in_noc nc = int (size M) + 1"
    and s: "a * (k + 1) = (\<Sum>r\<in>#M. rd r) + rd r"
    using assms(1) by (simp_all add: mean_inv_def add.commute a_def k_def)
  show ?thesis
  proof (cases "M = {#}")
    case True
    then show ?thesis using n by (simp add: mean_inv_def message_counts_fields)
  next
    case False
    then have pos: "0 < k" by (simp add: nonempty_has_size k_def)
    have gt: "messages_in_noc nc > 1"
      using n False by (simp add: nonempty_has_size)
    have "(a + (a - rd r) / k) * k = a * k + (a - rd r)"
      using pos by (simp add: distrib_right)
    also have "\<dots> = a * (k + 1) - rd r"
      by (simp add: algebra_simps)
    finally have eq: "(a + (a - rd r) / k) * k = (\<Sum>r\<in>#M. rd r)"
      using s by simp
    have mean: "mean_in_flight_receive_delay (schedule_update_noc_message_counts m nc False)
        = a + (a - rd r) / k"
      using gt n assms(2) by (simp add: message_counts_fields a_def k_def)
    have cnt: "messages_in_noc (schedule_update_noc_message_counts m nc False) = int (size M)"
      using n by (simp add: message_counts_fields)
    show ?thesis
      unfolding mean_inv_def mean cnt using eq False by (simp add: k_def)
  qed
qed

lemma sum_mset_receive_delay_nonneg:
  "\<forall>r \<in># M. 0 \<le> rd r \<Longrightarrow> (0::real) \<le> (\<Sum>r\<in>#M. rd r)"
  by (induction M) auto

lemma mean_inv_nonneg:
  assumes "mean_inv rd nc M" and "\<forall>r \<in># M. 0 \<le> rd r"
  shows "0 \<le> mean_in_flight_receive_delay nc"
proof (cases "M = {#}")
  case True
  then show ?thesis using assms(1) by (simp add: mean_inv_def)
next
  case False
  then have pos: "0 < real (size M)" by (simp add: nonempty_has_size)
  have "0 \<le> (\<Sum>r\<in>#M. rd r)"
    using assms(2) by (rule sum_mset_receive_delay_nonneg)
  then have "0 \<le> mean_in_flight_receive_delay nc * real (size M)"
    using assms(1) by (simp add: mean_inv_def)
  then show ?thesis
    using pos by (metis mult_le_cancel_right_pos mult_zero_left)
qed

lemma mean_inv_cong:
  "messages_in_noc nc' = messages_in_noc nc
   \<Longrightarrow> mean_in_flight_receive_delay nc' = mean_in_flight_receive_delay nc
   \<Longrightarrow> mean_inv rd nc' M = mean_inv rd nc M"
  by (simp add: mean_inv_def)

lemma update_queue_mean_inv:
  assumes "update_queue t q (st, nc) = (q', st', nc')"
    and "\<And>x. receive_delay (st x) = rd x"
    and "mean_inv rd nc (mset q + M)"
  shows "mean_inv rd nc' (mset q' + M) \<and> set q' \<subseteq> set q"
  using assms
proof (induction q arbitrary: st nc q' st' nc' M)
  case Nil
  then show ?case by simp
next
  case (Cons r q)
  show ?case
  proof (cases "in_noc (st r) \<and> t \<ge> received_timestamp (st r)")
    case True
    define st1 where "st1 = st(r := (st r)\<lparr>in_noc := False\<rparr>)"
    define nc1 where "nc1 = schedule_update_noc_message_counts (st1 r) nc False"
    have u: "update_queue t q (st1, nc1) = (q', st', nc')"
      using Cons.prems(1) True by (simp add: st1_def nc1_def Let_def)
    have rd: "receive_delay (st1 x) = rd x" for x
      using Cons.prems(2)[of x] Cons.prems(2)[of r] by (simp add: st1_def)
    have "mean_inv rd nc (add_mset r (mset q + M))"
      using Cons.prems(3) by simp
    then have "mean_inv rd nc1 (mset q + M)"
      unfolding nc1_def using rd[of r] by (rule mean_inv_message_out)
    from Cons.IH[OF u rd this] show ?thesis by auto
  next
    case False
    obtain q1 where u: "update_queue t q (st, nc) = (q1, st', nc')" and q': "q' = r # q1"
      using Cons.prems(1) False by (auto split: prod.splits)
    have "mean_inv rd nc (mset q + add_mset r M)"
      using Cons.prems(3) by simp
    from Cons.IH[OF u Cons.prems(2) this] show ?thesis
      unfolding q' by auto
  qed
qed

lemma update_queue_receive_delay:
  "update_queue t q (st, nc) = (q', st', nc') \<Longrightarrow> receive_delay (st' x) = receive_delay (st x)"
  using but_in_noc_fields(8)[OF update_queue_but_in_noc] .

lemma update_queues_mean_inv:
  assumes "update_queues t qs (st, nc) = (qs', st', nc')"
    and "\<And>x. receive_delay (st x) = rd x"
    and "mean_inv rd nc (mset (concat qs) + M)"
  shows "mean_inv rd nc' (mset (concat qs') + M) \<and> set (concat qs') \<subseteq> set (concat qs)"
  using assms
proof (induction qs arbitrary: st nc qs' st' nc' M)
  case Nil
  then show ?case by simp
next
  case (Cons q qs)
  obtain q1 st1 nc1 where a: "update_queue t q (st, nc) = (q1, st1, nc1)"
    by (cases "update_queue t q (st, nc)")
  obtain qs2 where b: "update_queues t qs (st1, nc1) = (qs2, st', nc')" and e: "qs' = q1 # qs2"
    using Cons.prems(1) a by (auto split: prod.splits)
  have rd1: "receive_delay (st1 x) = rd x" for x
    using update_queue_receive_delay[OF a, of x] Cons.prems(2)[of x] by simp
  have "mean_inv rd nc (mset q + (mset (concat qs) + M))"
    using Cons.prems(3) by (simp add: ac_simps)
  from update_queue_mean_inv[OF a Cons.prems(2) this]
  have 1: "mean_inv rd nc1 (mset (concat qs) + (mset q1 + M))" and s1: "set q1 \<subseteq> set q"
    by (simp_all add: ac_simps)
  from Cons.IH[OF b rd1 1] show ?case
    unfolding e using s1 by (auto simp add: ac_simps)
qed

lemma schedule_update_noc_mean_inv:
  assumes "schedule_update_noc t (st, nc) = (st', nc')"
    and "\<And>x. receive_delay (st x) = rd x"
    and "mean_inv rd nc (mset (concat (messages_received nc)))"
  shows "mean_inv rd nc' (mset (concat (messages_received nc')))"
    and "set (concat (messages_received nc')) \<subseteq> set (concat (messages_received nc))"
proof -
  obtain qs1 st1 nc1 where u: "update_queues t (messages_received nc) (st, nc) = (qs1, st1, nc1)"
    by (cases "update_queues t (messages_received nc) (st, nc)")
  have e: "nc' = nc1\<lparr>messages_received := qs1\<rparr>"
    using assms(1) u by (simp add: schedule_update_noc_def)
  have "mean_inv rd nc (mset (concat (messages_received nc)) + {#})"
    using assms(3) by simp
  from update_queues_mean_inv[OF u assms(2) this]
  have "mean_inv rd nc1 (mset (concat qs1))" "set (concat qs1) \<subseteq> set (concat (messages_received nc))"
    by simp_all
  then show "mean_inv rd nc' (mset (concat (messages_received nc')))"
    and "set (concat (messages_received nc')) \<subseteq> set (concat (messages_received nc))"
    unfolding e by (simp_all add: mean_inv_def)
qed

lemma mset_concat_append:
  assumes "i < length qs"
  shows "mset (concat (qs[i := qs ! i @ [r]])) = add_mset r (mset (concat qs))"
proof -
  have a: "qs = take i qs @ (qs ! i) # drop (Suc i) qs"
    using assms by (metis id_take_nth_drop)
  have b: "qs[i := qs ! i @ [r]] = take i qs @ (qs ! i @ [r]) # drop (Suc i) qs"
    using assms by (simp add: upd_conv_take_nth_drop)
  have "mset (concat (qs[i := qs ! i @ [r]]))
      = add_mset r (mset (concat (take i qs @ (qs ! i) # drop (Suc i) qs)))"
    unfolding b by simp
  then show ?thesis using a by simp
qed

lemma schedule_send_mean_inv:
  assumes "schedule_send sched r (st, nc, lst) = Inr (st', nc', lst')"
    and "receive_delay (st r) = rd r"
    and "mean_inv rd nc (mset (concat (messages_received nc)))"
  shows "mean_inv rd nc' (mset (concat (messages_received nc')))"
    and "set (concat (messages_received nc')) \<subseteq> insert r (set (concat (messages_received nc)))"
proof -
  from assms(1) obtain d m2 nc2 e where
    d: "schedule_calculate_messages_along_route (st r) nc = Inr d"
    and m2: "m2 = (if d > real (path_capacity sched (st r))
           then (st r)\<lparr>sent_timestamp := sent_timestamp (st r)
                   + (d - real (path_capacity sched (st r))) * mean_in_flight_receive_delay nc\<rparr>
           else st r)\<lparr>in_noc := True\<rparr>"
    and "0 \<le> dest_core_id (st r)"
    and len: "nat (dest_core_id (st r)) < length (messages_received nc)"
    and nc2: "nc2 = schedule_update_noc_message_counts m2
             (nc\<lparr>messages_received := (messages_received nc)
                  [nat (dest_core_id (st r)) :=
                     messages_received nc ! nat (dest_core_id (st r)) @ [r]]\<rparr>) True"
    and e: "e = sent_timestamp m2
         + max (network_delay m2) (d * mean_in_flight_receive_delay nc2 / (real (hops m2) + 1))"
    and "nat (dest_core_id (st r)) < length (core_finished_receiving nc2)"
    and st': "st' = st(r := m2\<lparr>received_timestamp :=
                       max (core_finished_receiving nc2 ! nat (dest_core_id (st r))) e,
                     processed_timestamp :=
                       max (core_finished_receiving nc2 ! nat (dest_core_id (st r)) + receive_delay m2)
                           (e + receive_delay m2)\<rparr>)"
    and nc': "nc' = nc2\<lparr>core_finished_receiving := (core_finished_receiving nc2)
              [nat (dest_core_id (st r)) :=
                 max (core_finished_receiving nc2 ! nat (dest_core_id (st r)) + receive_delay m2)
                     (e + receive_delay m2)]\<rparr>"
    and lst': "lst' = max lst (max (core_finished_receiving nc2 ! nat (dest_core_id (st r)) + receive_delay m2)
                        (e + receive_delay m2))"
    by (rule schedule_send_Inr)
  define nc1 where "nc1 = nc\<lparr>messages_received := (messages_received nc)
                  [nat (dest_core_id (st r)) :=
                     messages_received nc ! nat (dest_core_id (st r)) @ [r]]\<rparr>"
  have rd: "receive_delay m2 = rd r"
    using assms(2) by (simp add: m2)
  have "mean_inv rd nc1 (mset (concat (messages_received nc)))"
    using assms(3) by (simp add: mean_inv_def nc1_def)
  then have "mean_inv rd nc2 (add_mset r (mset (concat (messages_received nc))))"
    unfolding nc2 nc1_def[symmetric] using rd by (rule mean_inv_message_in)
  moreover have mr: "messages_received nc' = (messages_received nc)
                  [nat (dest_core_id (st r)) :=
                     messages_received nc ! nat (dest_core_id (st r)) @ [r]]"
    by (simp add: nc' nc2 message_counts_fields)
  ultimately show "mean_inv rd nc' (mset (concat (messages_received nc')))"
    unfolding mr mset_concat_append[OF len] by (simp add: mean_inv_def nc')
  have "set_mset (mset (concat (messages_received nc')))
      = set_mset (add_mset r (mset (concat (messages_received nc))))"
    unfolding mr mset_concat_append[OF len] ..
  then show "set (concat (messages_received nc')) \<subseteq> insert r (set (concat (messages_received nc)))"
    by simp
qed

lemma but_in_noc_finish_time:
  "but_in_noc m' = but_in_noc m \<Longrightarrow> finish_time m' = finish_time m"
  using but_in_noc_fields(1,3,4)[of m' m] by (simp add: finish_time_def)

lemma pq_min_le:
  "sent_timestamp (st (pq_min st best rs)) \<le> sent_timestamp (st best)
   \<and> (\<forall>x \<in> set rs. sent_timestamp (st (pq_min st best rs)) \<le> sent_timestamp (st x))"
proof (induction rs arbitrary: best)
  case Nil
  then show ?case by simp
next
  case (Cons r rs)
  show ?case
    using Cons.IH[of r] Cons.IH[of best] by (auto simp del: split_paired_All)
qed

lemma pq_top_le:
  assumes "x \<in> set pq"
  shows "sent_timestamp (st (pq_top st pq)) \<le> sent_timestamp (st x)"
proof -
  have "pq = hd pq # tl pq" using assms by (cases pq) auto
  then have "x = hd pq \<or> x \<in> set (tl pq)" using assms by (metis set_ConsD)
  then show ?thesis
    using pq_min_le[of st "hd pq" "tl pq"] unfolding pq_top_def by blast
qed

lemma schedule_step_kept:
  assumes "schedule_step sched s = Inr s'"
    and "x \<noteq> pq_top (sched_store s) (priority s)"
    and "x \<notin> set (concat (messages_sent_per_core s))"
  shows "but_in_noc (sched_store s' x) = but_in_noc (sched_store s x)"
proof -
  define r where "r = pq_top (sched_store s) (priority s)"
  from assms(1) obtain st1 nc1 st2 nc2 l2 where
    u: "schedule_update_noc (sent_timestamp (sched_store s r)) (sched_store s, noc s) = (st1, nc1)"
    and ph': "placeholder (sched_store s r) \<longrightarrow>
       st2 = st1 \<and> nc2 = nc1 \<and> l2 = max (last_timestamp s) (sent_timestamp (sched_store s r))"
    and send': "\<not> placeholder (sched_store s r) \<longrightarrow>
       schedule_send sched r (st1, nc1, max (last_timestamp s) (sent_timestamp (sched_store s r)))
       = Inr (st2, nc2, l2)"
    and nx: "schedule_next r (remove1 r (priority s)) s (st2, nc2, l2) = Inr s'"
    unfolding r_def by (rule schedule_step_cases)
  note ph = ph'[rule_format] and send = send'[rule_format]
  have 1: "but_in_noc (st1 x) = but_in_noc (sched_store s x)"
    by (rule schedule_update_noc_but_in_noc[OF u])
  have 2: "st2 x = st1 x"
  proof (cases "placeholder (sched_store s r)")
    case True
    then show ?thesis using ph by simp
  next
    case False
    then show ?thesis
      using schedule_send_effect(7)[OF send[OF False], of x] assms(2) unfolding r_def by simp
  qed
  show ?thesis
    using schedule_next_store(3)[OF nx assms(3)] 1 2 by simp
qed

text \<open>
  One turn of the main loop and \<^verbatim>\<open>last_timestamp\<close>: the turn raises it to the finish time
  of the popped message and then, possibly, to the \<open>sent_timestamp\<close> of the message
  that the turn pushes.
\<close>

lemma schedule_step_last:
  assumes step: "schedule_step sched s = Inr s'"
    and r: "r = pq_top (sched_store s) (priority s)"
    and fresh: "r \<notin> set (concat (messages_sent_per_core s))"
    and mean: "mean_inv rd (noc s) (mset (concat (messages_received (noc s))))"
    and rd: "\<And>x. receive_delay (sched_store s x) = rd x"
    and in_flight: "\<forall>x \<in> set (concat (messages_received (noc s))). 0 \<le> rd x"
    and nn: "0 \<le> network_delay (sched_store s r)" "0 \<le> rd r"
  shows "sent_timestamp (sched_store s r) \<le> finish_time (sched_store s' r)"
    and "last_timestamp s' = max (last_timestamp s) (finish_time (sched_store s' r))
         \<or> (\<exists>nxt \<in> set (priority s'). last_timestamp s'
               = max (max (last_timestamp s) (finish_time (sched_store s' r)))
                     (sent_timestamp (sched_store s' nxt)))"
    and "mean_inv rd (noc s') (mset (concat (messages_received (noc s'))))"
    and "set (concat (messages_received (noc s')))
           \<subseteq> insert r (set (concat (messages_received (noc s))))"
proof -
  from step obtain st1 nc1 st2 nc2 l2 where
    u: "schedule_update_noc (sent_timestamp (sched_store s r)) (sched_store s, noc s) = (st1, nc1)"
    and ph': "placeholder (sched_store s r) \<longrightarrow>
       st2 = st1 \<and> nc2 = nc1 \<and> l2 = max (last_timestamp s) (sent_timestamp (sched_store s r))"
    and send': "\<not> placeholder (sched_store s r) \<longrightarrow>
       schedule_send sched r (st1, nc1, max (last_timestamp s) (sent_timestamp (sched_store s r)))
       = Inr (st2, nc2, l2)"
    and nx: "schedule_next r (remove1 r (priority s)) s (st2, nc2, l2) = Inr s'"
    unfolding r by (rule schedule_step_cases)
  note ph = ph'[rule_format] and send = send'[rule_format]
  have same: "sched_store s' r = st2 r"
    by (rule schedule_next_store(3)[OF nx fresh])
  note f = but_in_noc_fields[OF schedule_update_noc_but_in_noc[OF u, of r]]
  have rd1: "receive_delay (st1 x) = rd x" for x
    using but_in_noc_fields(8)[OF schedule_update_noc_but_in_noc[OF u, of x]] rd[of x] by simp
  note m1 = schedule_update_noc_mean_inv[OF u rd mean]
  have "0 \<le> mean_in_flight_receive_delay nc1"
    using m1 in_flight by (intro mean_inv_nonneg[OF m1(1)]) auto
  note mean1 = this
  have A: "sent_timestamp (sched_store s r) \<le> finish_time (st2 r)
      \<and> l2 = max (last_timestamp s) (finish_time (st2 r))
      \<and> mean_inv rd nc2 (mset (concat (messages_received nc2)))
      \<and> set (concat (messages_received nc2))
           \<subseteq> insert r (set (concat (messages_received (noc s))))"
  proof (cases "placeholder (sched_store s r)")
    case True
    have "finish_time (st2 r) = sent_timestamp (sched_store s r)"
      using ph[OF True] f(1,4) True by (simp add: finish_time_def)
    then show ?thesis
      using ph[OF True] m1 by auto
  next
    case False
    note e = schedule_send_effect[OF send[OF False]]
    from e(1) obtain d where
      sent2: "sent_timestamp (st2 r) =
         (if d > real (path_capacity sched (st1 r))
          then sent_timestamp (st1 r)
               + (d - real (path_capacity sched (st1 r))) * mean_in_flight_receive_delay nc1
          else sent_timestamp (st1 r))"
      by blast
    have "0 \<le> (d - real (path_capacity sched (st1 r))) * mean_in_flight_receive_delay nc1"
      if "d > real (path_capacity sched (st1 r))"
      using that mean1 by simp
    then have 1: "sent_timestamp (sched_store s r) \<le> sent_timestamp (st2 r)"
      unfolding sent2 f(1)[symmetric] by simp
    have 2: "sent_timestamp (st2 r) \<le> received_timestamp (st2 r)"
      using e(2) nn(1) f(7) by simp
    have 3: "received_timestamp (st2 r) \<le> processed_timestamp (st2 r)"
      using e(3) nn(2) rd1[of r] by simp
    have "placeholder (st2 r) = placeholder (st1 r)"
      using arg_cong[OF e(6), of placeholder] by simp
    then have 4: "finish_time (st2 r) = processed_timestamp (st2 r)"
      using False f(4) by (simp add: finish_time_def)
    note m2 = schedule_send_mean_inv[OF send[OF False] rd1[of r] m1(1)]
    have "l2 = max (last_timestamp s) (finish_time (st2 r))"
      unfolding e(4) 4 using 1 2 3 by simp
    moreover have "sent_timestamp (sched_store s r) \<le> finish_time (st2 r)"
      unfolding 4 using 1 2 3 by simp
    ultimately show ?thesis
      using m2 m1(2) by auto
  qed
  note n = schedule_next_effect[OF nx]
  show "sent_timestamp (sched_store s r) \<le> finish_time (sched_store s' r)"
    using A same by simp
  show "mean_inv rd (noc s') (mset (concat (messages_received (noc s'))))"
    using A n by simp
  show "set (concat (messages_received (noc s')))
           \<subseteq> insert r (set (concat (messages_received (noc s))))"
    using A n by simp
  show "last_timestamp s' = max (last_timestamp s) (finish_time (sched_store s' r))
         \<or> (\<exists>nxt \<in> set (priority s'). last_timestamp s'
               = max (max (last_timestamp s) (finish_time (sched_store s' r)))
                     (sent_timestamp (sched_store s' nxt)))"
  proof (cases "messages_sent_per_core s ! nat (src_core_id (st2 r))")
    case Nil
    then show ?thesis using n A same by simp
  next
    case (Cons nxt q)
    have "nxt \<in> set (priority s')"
      and "last_timestamp s' = max l2 (sent_timestamp (sched_store s' nxt))"
      using n Cons by simp_all
    then show ?thesis using A same by auto
  qed
qed

lemma schedule_step_refs_inv:
  assumes step: "schedule_step sched s = Inr s'" and ne: "priority s \<noteq> []"
    and inv: "refs_inv msgs s"
  shows "refs_inv msgs s'"
proof -
  have d: "distinct (waiting s)" and sub: "set (waiting s) \<subseteq> valid_refs msgs"
    and st: "\<And>x. static (sched_store s x) = static (initial_store msgs x)"
    using inv by (auto simp add: refs_inv_def)
  note dist = schedule_step_distinct[OF step ne d]
  have "static (sched_store s' x) = static (initial_store msgs x)" for x
    using schedule_step_static[OF step, of x] st[of x] by simp
  then show ?thesis
    unfolding refs_inv_def using dist(1,3) sub by blast
qed

lemma schedule_step_chain_inv:
  assumes step: "schedule_step sched s = Inr s'" and ne: "priority s \<noteq> []"
    and refs: "refs_inv msgs s" and chain: "chain_inv s"
    and wf: "\<forall>x \<in> valid_refs msgs. src_core_id (initial_store msgs x) = int (fst x)"
  shows "chain_inv s'"
proof -
  define r where "r = pq_top (sched_store s) (priority s)"
  define fifos where "fifos = messages_sent_per_core s"
  have sub: "set (waiting s) \<subseteq> valid_refs msgs"
    and st: "\<And>x. static (sched_store s x) = static (initial_store msgs x)"
    using refs by (auto simp add: refs_inv_def)
  have c1: "\<And>c x. c < length fifos \<Longrightarrow> x \<in> set (fifos ! c) \<Longrightarrow> fst x = c"
    and c2: "\<And>c. c < length fifos \<Longrightarrow> fifos ! c \<noteq> [] \<Longrightarrow> \<exists>x \<in> set (priority s). fst x = c"
    using chain unfolding chain_inv_def fifos_def by blast+
  have r_in: "r \<in> set (priority s)"
    unfolding r_def using ne by (rule pq_top_in)
  then have r_valid: "r \<in> valid_refs msgs"
    using sub by (auto simp add: waiting_def)
  from step obtain st1 nc1 st2 nc2 l2 where
    nx: "schedule_next r (remove1 r (priority s)) s (st2, nc2, l2) = Inr s'"
    unfolding r_def by (rule schedule_step_cases)
  have "static (st2 r) = static (sched_store s r)"
    using schedule_next_store(1)[OF nx, of r] schedule_step_static[OF step, of r] by simp
  then have "src_core_id (st2 r) = src_core_id (initial_store msgs r)"
    using static_fields(6)[of "st2 r" "sched_store s r"] static_fields(6)[OF st[of r]] by simp
  then have i: "nat (src_core_id (st2 r)) = fst r"
    using wf r_valid by simp
  note n = schedule_next_effect[OF nx, unfolded i, folded fifos_def]
  have len: "fst r < length fifos" using n by simp
  have keep: "\<exists>x \<in> set (remove1 r (priority s)). fst x = c"
    if "c < length fifos" "fifos ! c \<noteq> []" "c \<noteq> fst r" for c
  proof -
    from c2[OF that(1,2)] obtain x where x: "x \<in> set (priority s)" "fst x = c" by blast
    then have "x \<noteq> r" using that(3) by auto
    then have "x \<in> set (remove1 r (priority s))" using x(1) by (simp add: in_set_remove1)
    then show ?thesis using x(2) by blast
  qed
  show ?thesis
  proof (cases "fifos ! fst r")
    case Nil
    have p: "priority s' = remove1 r (priority s)" and f: "messages_sent_per_core s' = fifos"
      using n Nil by simp_all
    have "\<exists>x \<in> set (priority s'). fst x = c" if "c < length fifos" "fifos ! c \<noteq> []" for c
      unfolding p using keep[OF that] that(2) Nil by (cases "c = fst r") auto
    then show ?thesis
      unfolding chain_inv_def f using c1 by blast
  next
    case (Cons nxt q)
    have p: "priority s' = remove1 r (priority s) @ [nxt]"
      and f: "messages_sent_per_core s' = fifos[fst r := q]"
      using n Cons by simp_all
    have nxt: "fst nxt = fst r"
      using c1[OF len, of nxt] Cons by simp
    have a: "fst x = c" if "c < length (fifos[fst r := q])" "x \<in> set (fifos[fst r := q] ! c)" for c x
    proof (cases "c = fst r")
      case True
      then have "x \<in> set (fifos ! fst r)" using that len Cons by simp
      then show ?thesis using c1[OF len] True by simp
    next
      case False
      then show ?thesis using that c1[of c x] by simp
    qed
    have b: "\<exists>x \<in> set (priority s'). fst x = c"
      if "c < length (fifos[fst r := q])" "fifos[fst r := q] ! c \<noteq> []" for c
    proof (cases "c = fst r")
      case True
      then show ?thesis unfolding p using nxt by simp
    next
      case False
      then have "\<exists>x \<in> set (remove1 r (priority s)). fst x = c"
        using that by (intro keep) simp_all
      then show ?thesis unfolding p by auto
    qed
    show ?thesis
      unfolding chain_inv_def f using a b by blast
  qed
qed

lemma schedule_step_bound_inv:
  assumes step: "schedule_step sched s = Inr s'" and ne: "priority s \<noteq> []"
    and refs: "refs_inv msgs s" and fl: "in_flight_inv msgs s" and bound: "bound_inv msgs s"
    and nonneg: "\<forall>x \<in> valid_refs msgs. 0 \<le> network_delay (initial_store msgs x)
                   \<and> 0 \<le> receive_delay (initial_store msgs x)"
  shows "in_flight_inv msgs s'" and "bound_inv msgs s'"
proof -
  define r where "r = pq_top (sched_store s) (priority s)"
  define rd where "rd = (\<lambda>x. receive_delay (initial_store msgs x))"
  define v where "v = finish_time (sched_store s' r)"
  have d: "distinct (waiting s)" and sub: "set (waiting s) \<subseteq> valid_refs msgs"
    and st: "\<And>x. static (sched_store s x) = static (initial_store msgs x)"
    using refs by (auto simp add: refs_inv_def)
  have mean: "mean_inv rd (noc s) (mset (concat (messages_received (noc s))))"
    and fsub: "set (concat (messages_received (noc s))) \<subseteq> valid_refs msgs"
    using fl by (simp_all add: in_flight_inv_def rd_def)
  have b1: "0 \<le> last_timestamp s"
    and b2: "\<And>x. x \<in> valid_refs msgs \<Longrightarrow> x \<notin> set (waiting s)
               \<Longrightarrow> finish_time (sched_store s x) \<le> last_timestamp s"
    and b3: "last_timestamp s = 0
         \<or> (\<exists>x \<in> valid_refs msgs. x \<notin> set (waiting s)
               \<and> last_timestamp s = finish_time (sched_store s x))
         \<or> (\<exists>x \<in> set (priority s). last_timestamp s \<le> sent_timestamp (sched_store s x))"
    using bound unfolding bound_inv_def by blast+
  have r_in: "r \<in> set (priority s)"
    unfolding r_def using ne by (rule pq_top_in)
  then have r_valid: "r \<in> valid_refs msgs"
    using sub by (auto simp add: waiting_def)
  have fresh: "r \<notin> set (concat (messages_sent_per_core s))"
    using d r_in by (auto simp add: waiting_def)
  have rd: "receive_delay (sched_store s x) = rd x" for x
    using static_fields(5)[OF st[of x]] by (simp add: rd_def)
  have in_flight: "\<forall>x \<in> set (concat (messages_received (noc s))). 0 \<le> rd x"
    using fsub nonneg by (auto simp add: rd_def)
  have nn: "0 \<le> network_delay (sched_store s r)" "0 \<le> rd r"
    using static_fields(4)[OF st[of r]] nonneg r_valid by (simp_all add: rd_def)
  note L = schedule_step_last[OF step r_def fresh mean rd in_flight nn, folded v_def]
  note dist = schedule_step_distinct[OF step ne d, folded r_def]
  have wait: "set (waiting s) = insert r (set (waiting s'))"
    using arg_cong[OF schedule_step_waiting[OF step ne], of set_mset] by (simp add: r_def)
  show "in_flight_inv msgs s'"
    unfolding in_flight_inv_def using L(3,4) fsub r_valid by (auto simp add: rd_def)
  have kept: "but_in_noc (sched_store s' x) = but_in_noc (sched_store s x)"
    if "x \<noteq> r" "x \<notin> set (concat (messages_sent_per_core s))" for x
    using schedule_step_kept[OF step that(1)[unfolded r_def] that(2)] .
  have popped: "x \<noteq> r \<and> finish_time (sched_store s' x) = finish_time (sched_store s x)
      \<and> x \<notin> set (waiting s')"
    if "x \<notin> set (waiting s)" for x
  proof -
    have "x \<noteq> r" using that r_in by (auto simp add: waiting_def)
    moreover have "x \<notin> set (concat (messages_sent_per_core s))"
      using that by (simp add: waiting_def)
    ultimately show ?thesis
      using but_in_noc_finish_time[OF kept] that dist(3) by blast
  qed
  define l2 where "l2 = max (last_timestamp s) v"
  have ge: "l2 \<le> last_timestamp s'"
    using L(2) unfolding l2_def by auto
  have 1: "0 \<le> last_timestamp s'"
    using ge b1 unfolding l2_def by simp
  have 2: "finish_time (sched_store s' x) \<le> last_timestamp s'"
    if "x \<in> valid_refs msgs" "x \<notin> set (waiting s')" for x
  proof (cases "x = r")
    case True
    then show ?thesis using ge unfolding l2_def v_def by simp
  next
    case False
    then have w: "x \<notin> set (waiting s)" using that(2) wait by simp
    show ?thesis
      using b2[OF that(1) w] popped[OF w] ge unfolding l2_def by simp
  qed
  have at_l2: "l2 = 0
         \<or> (\<exists>x \<in> valid_refs msgs. x \<notin> set (waiting s') \<and> l2 = finish_time (sched_store s' x))
         \<or> (\<exists>x \<in> set (priority s'). l2 \<le> sent_timestamp (sched_store s' x))"
  proof (cases "last_timestamp s \<le> v")
    case True
    then have "l2 = finish_time (sched_store s' r)" by (simp add: l2_def v_def)
    then show ?thesis using r_valid dist(2) by blast
  next
    case False
    then have e: "l2 = last_timestamp s" by (simp add: l2_def)
    from b3 consider "last_timestamp s = 0"
      | x where "x \<in> valid_refs msgs" "x \<notin> set (waiting s)"
          "last_timestamp s = finish_time (sched_store s x)"
      | x where "x \<in> set (priority s)" "last_timestamp s \<le> sent_timestamp (sched_store s x)"
      by blast
    then show ?thesis
    proof cases
      case 1
      then show ?thesis using e by simp
    next
      case 2
      have "\<exists>x \<in> valid_refs msgs. x \<notin> set (waiting s') \<and> l2 = finish_time (sched_store s' x)"
        using 2 popped[OF 2(2)] e by (intro bexI[of _ x]) simp_all
      then show ?thesis by blast
    next
      case 3
      have "x \<noteq> r"
        using 3(2) L(1) False by auto
      then have "x \<in> set (priority s')"
        using schedule_step_priority[OF step] 3(1) unfolding r_def by auto
      moreover have "x \<notin> set (concat (messages_sent_per_core s))"
        using d 3(1) by (auto simp add: waiting_def)
      then have "sent_timestamp (sched_store s' x) = sent_timestamp (sched_store s x)"
        using but_in_noc_fields(1)[OF kept[OF \<open>x \<noteq> r\<close>]] by simp
      ultimately have "\<exists>x \<in> set (priority s'). l2 \<le> sent_timestamp (sched_store s' x)"
        using 3(2) e by (intro bexI[of _ x]) simp_all
      then show ?thesis by blast
    qed
  qed
  have 3: "last_timestamp s' = 0
         \<or> (\<exists>x \<in> valid_refs msgs. x \<notin> set (waiting s')
               \<and> last_timestamp s' = finish_time (sched_store s' x))
         \<or> (\<exists>x \<in> set (priority s'). last_timestamp s' \<le> sent_timestamp (sched_store s' x))"
  proof (cases "last_timestamp s' = l2")
    case True
    then show ?thesis using at_l2 by simp
  next
    case False
    then obtain nxt where "nxt \<in> set (priority s')"
      "last_timestamp s' = max l2 (sent_timestamp (sched_store s' nxt))"
      using L(2) unfolding l2_def by blast
    then have "nxt \<in> set (priority s')"
      "last_timestamp s' \<le> sent_timestamp (sched_store s' nxt)"
      using False by (auto simp add: max_def split: if_splits)
    then show ?thesis by blast
  qed
  show "bound_inv msgs s'"
    unfolding bound_inv_def using 1 2 3 by blast
qed

lemma schedule_loop_bound_inv:
  assumes "schedule_loop sched s = Inr s'"
    and "refs_inv msgs s" and "chain_inv s" and "in_flight_inv msgs s" and "bound_inv msgs s"
    and wf: "\<forall>x \<in> valid_refs msgs. src_core_id (initial_store msgs x) = int (fst x)"
    and nonneg: "\<forall>x \<in> valid_refs msgs. 0 \<le> network_delay (initial_store msgs x)
                   \<and> 0 \<le> receive_delay (initial_store msgs x)"
  shows "refs_inv msgs s' \<and> chain_inv s' \<and> bound_inv msgs s' \<and> priority s' = []"
  using assms(1-5)
proof (induction sched s rule: schedule_loop.induct)
  case (1 sched s)
  show ?case
  proof (cases "priority s = []")
    case True
    then show ?thesis using "1.prems" by (simp add: schedule_loop.simps[of sched s])
  next
    case False
    then obtain s1 where step: "schedule_step sched s = Inr s1"
      and loop: "schedule_loop sched s1 = Inr s'"
      using "1.prems"(1) by (simp add: schedule_loop.simps[of sched s] split: sum.splits)
    have a: "refs_inv msgs s1"
      using step False "1.prems"(2) by (rule schedule_step_refs_inv)
    have b: "chain_inv s1"
      using step False "1.prems"(2,3) wf by (rule schedule_step_chain_inv)
    have c: "in_flight_inv msgs s1" and d: "bound_inv msgs s1"
      using schedule_step_bound_inv[OF step False "1.prems"(2,4,5) nonneg] by simp_all
    show ?thesis
      using "1.IH"[OF False step loop a b c d] .
  qed
qed

lemma init_queues_shape:
  "init_queues qs (st, pq) = (qs', st', pq') \<Longrightarrow>
     qs' = map tl qs \<and> set pq' = set pq \<union> hd ` {q \<in> set qs. q \<noteq> []}"
proof (induction qs arbitrary: st pq qs' st' pq')
  case Nil
  then show ?case by simp
next
  case (Cons q qs)
  show ?case
  proof (cases q)
    case Nil
    obtain qs1 st1 pq1 where r: "init_queues qs (st, pq) = (qs1, st1, pq1)"
      by (cases "init_queues qs (st, pq)")
    have "qs' = [] # qs1" "st' = st1" "pq' = pq1"
      using Cons.prems Nil r by simp_all
    then show ?thesis using Cons.IH[OF r] Nil by auto
  next
    case (Cons r q1)
    define st0 where "st0 = st(r := (st r)\<lparr>sent_timestamp := generation_delay (st r)\<rparr>)"
    obtain qs1 st1 pq1 where i: "init_queues qs (st0, pq @ [r]) = (qs1, st1, pq1)"
      by (cases "init_queues qs (st0, pq @ [r])")
    have e: "qs' = q1 # qs1" "st' = st1" "pq' = pq1"
      using Cons.prems Cons i by (simp_all add: st0_def[symmetric] Let_def)
    have "{x \<in> set (q # qs). x \<noteq> []} = insert q {x \<in> set qs. x \<noteq> []}"
      using Cons by auto
    then show ?thesis using Cons.IH[OF i] e Cons by simp
  qed
qed

lemma initial_state_invs:
  assumes "\<not> list_ex (\<lambda>c. msgs ! c \<noteq> []) [core_count sched..<length msgs]"
  shows "refs_inv msgs (initial_state msgs sched)"
    and "chain_inv (initial_state msgs sched)"
    and "in_flight_inv msgs (initial_state msgs sched)"
    and "bound_inv msgs (initial_state msgs sched)"
proof -
  define f where "f = (\<lambda>c. if c < length msgs then message_refs msgs c else [])"
  define fifos where "fifos = map f [0..<core_count sched]"
  obtain qs st pq where i: "init_queues fifos (initial_store msgs, []) = (qs, st, pq)"
    by (cases "init_queues fifos (initial_store msgs, [])")
  have s0: "initial_state msgs sched = \<lparr>sched_store = st, priority = pq,
      messages_sent_per_core = qs, noc = initial_noc sched, last_timestamp = 0\<rparr>"
    by (simp add: initial_state_def schedule_init_timing_priority_def fifos_def[symmetric]
        f_def[symmetric] i)
  note e0 = init_queues_effect[OF i]
  have e1: "mset pq + mset (concat qs) = mset [] + mset (concat fifos)"
    and e2: "\<And>x. static (st x) = static (initial_store msgs x)"
    using e0 by blast+
  have m: "mset (waiting (initial_state msgs sched)) = mset (concat fifos)"
    using e1 by (simp add: s0 waiting_def)
  have w: "set (waiting (initial_state msgs sched)) = set (concat fifos)"
    using m by (rule mset_eq_setD)
  have 1: "distinct (waiting (initial_state msgs sched))"
    using mset_eq_imp_distinct_iff[OF m] distinct_message_refs[of msgs "core_count sched"]
    by (simp add: fifos_def f_def)
  have 2: "set (waiting (initial_state msgs sched)) \<subseteq> valid_refs msgs"
    using w distinct_message_refs[of msgs "core_count sched"] by (simp add: fifos_def f_def)
  have 3: "static (sched_store (initial_state msgs sched) x) = static (initial_store msgs x)" for x
    using e2 by (simp add: s0)
  show "refs_inv msgs (initial_state msgs sched)"
    unfolding refs_inv_def using 1 2 3 by blast
  note sh = init_queues_shape[OF i]
  have qs: "qs = map tl fifos" and pq: "set pq = hd ` {q \<in> set fifos. q \<noteq> []}"
    using sh by simp_all
  have fc: "fst x = c" if "x \<in> set (f c)" for x c
    using that by (auto simp add: f_def message_refs_def split: if_splits)
  have a: "fst x = c" if "c < length qs" "x \<in> set (qs ! c)" for c x
  proof -
    have "qs ! c = tl (f c)" using that(1) by (simp add: qs fifos_def)
    then have "x \<in> set (f c)" using that(2) by (metis list.set_sel(2) tl_Nil)
    then show ?thesis by (rule fc)
  qed
  have b: "\<exists>x \<in> set pq. fst x = c" if "c < length qs" "qs ! c \<noteq> []" for c
  proof -
    have t: "qs ! c = tl (f c)" and in_fifos: "f c \<in> set fifos"
      using that(1) by (simp_all add: qs fifos_def)
    have ne: "f c \<noteq> []" using that(2) t by auto
    then have "hd (f c) \<in> set pq" unfolding pq using in_fifos by blast
    moreover have "fst (hd (f c)) = c" using ne by (intro fc) simp
    ultimately show ?thesis by blast
  qed
  show "chain_inv (initial_state msgs sched)"
    unfolding chain_inv_def s0 using a b by simp
  show "in_flight_inv msgs (initial_state msgs sched)"
    by (simp add: in_flight_inv_def s0 initial_noc_def mean_inv_def)
  have all: "x \<in> set (waiting (initial_state msgs sched))" if "x \<in> valid_refs msgs" for x
  proof -
    obtain c k where x: "x = (c, k)" by (cases x)
    have c: "c < length msgs" "k < length (msgs ! c)"
      using that by (simp_all add: valid_refs_def x)
    have "c < core_count sched"
    proof (rule ccontr)
      assume "\<not> c < core_count sched"
      then have "c \<in> set [core_count sched..<length msgs]" "msgs ! c \<noteq> []"
        using c by auto
      then show False using assms unfolding list_ex_iff by blast
    qed
    then have "f c \<in> set fifos" by (simp add: fifos_def)
    moreover have "x \<in> set (f c)"
      using c by (simp add: f_def message_refs_def x)
    ultimately show ?thesis unfolding w by auto
  qed
  show "bound_inv msgs (initial_state msgs sched)"
    unfolding bound_inv_def using all by (simp add: s0)
qed

lemma scheduled_messages_set:
  "set (concat (scheduled_messages st msgs)) = st ` valid_refs msgs"
proof
  show "set (concat (scheduled_messages st msgs)) \<subseteq> st ` valid_refs msgs"
    using scheduled_messages_in[of _ st msgs] by auto
  show "st ` valid_refs msgs \<subseteq> set (concat (scheduled_messages st msgs))"
  proof
    fix m assume "m \<in> st ` valid_refs msgs"
    then obtain c k where "c < length msgs" "k < length (msgs ! c)" "m = st (c, k)"
      by (auto simp add: valid_refs_def)
    then show "m \<in> set (concat (scheduled_messages st msgs))"
      by (auto simp add: scheduled_messages_def intro!: bexI[of _ c])
  qed
qed

lemma finish_time_sets:
  "{0} \<union> processed_timestamp ` {m \<in> A. \<not> placeholder m} \<union> sent_timestamp ` {m \<in> A. placeholder m}
   = insert 0 (finish_time ` A)"
  by (auto simp add: finish_time_def image_iff)

text \<open>
  C2 as the code has it. Let the list \<open>c\<close> of the argument hold messages of core \<open>c\<close>
  (\<open>src_core_id = c\<close>), with non-negative \<open>network_delay\<close> and \<open>receive_delay\<close>. If
  \<open>schedule_messages\<close> returns, it returns the greatest of: zero, the
  \<open>processed_timestamp\<close> of every message that is not a placeholder, and the
  \<open>sent_timestamp\<close> of every placeholder, whether or not there are other messages.
\<close>

theorem schedule_messages_latest_finish_time:
  assumes "schedule_messages msgs sched = Inr (t, out)"
    and "\<forall>c < length msgs. \<forall>m \<in> set (msgs ! c).
           src_core_id m = int c \<and> 0 \<le> network_delay m \<and> 0 \<le> receive_delay m"
  shows "t = Max ({0} \<union> processed_timestamp ` {m \<in> set (concat out). \<not> placeholder m}
                  \<union> sent_timestamp ` {m \<in> set (concat out). placeholder m})"
proof -
  from assms(1) obtain s where loop: "schedule_loop sched (initial_state msgs sched) = Inr s"
    and out: "out = scheduled_messages (sched_store s) msgs"
    and t: "t = last_timestamp s"
    and chk: "\<not> list_ex (\<lambda>c. msgs ! c \<noteq> []) [core_count sched..<length msgs]"
    by (auto simp add: schedule_messages_def split: if_splits sum.splits)
  have init: "src_core_id (initial_store msgs x) = int (fst x)
      \<and> 0 \<le> network_delay (initial_store msgs x) \<and> 0 \<le> receive_delay (initial_store msgs x)"
    if "x \<in> valid_refs msgs" for x
  proof -
    obtain c k where x: "x = (c, k)" by (cases x)
    have "c < length msgs" "msgs ! c ! k \<in> set (msgs ! c)"
      using that by (simp_all add: valid_refs_def x)
    then show ?thesis using assms(2) by (simp add: initial_store_def x)
  qed
  note i = initial_state_invs[OF chk]
  have "refs_inv msgs s \<and> chain_inv s \<and> bound_inv msgs s \<and> priority s = []"
    using loop i by (rule schedule_loop_bound_inv) (simp_all add: init)
  then have chain: "chain_inv s" and bound: "bound_inv msgs s" and empty: "priority s = []"
    by simp_all
  have "q = []" if "q \<in> set (messages_sent_per_core s)" for q
  proof -
    from that obtain c where "c < length (messages_sent_per_core s)"
      "q = messages_sent_per_core s ! c"
      by (auto simp add: in_set_conv_nth)
    then show ?thesis using chain empty unfolding chain_inv_def by auto
  qed
  then have "concat (messages_sent_per_core s) = []" by simp
  then have w: "waiting s = []" using empty by (simp add: waiting_def)
  have 1: "0 \<le> t"
    and 2: "\<And>x. x \<in> valid_refs msgs \<Longrightarrow> finish_time (sched_store s x) \<le> t"
    and 3: "t = 0 \<or> (\<exists>x \<in> valid_refs msgs. t = finish_time (sched_store s x))"
    using bound unfolding bound_inv_def t w empty by simp_all
  have fin: "finite (valid_refs msgs)"
  proof (rule finite_subset)
    show "valid_refs msgs \<subseteq> {..<length msgs} \<times> {..<Max (insert 0 (length ` set msgs)) + 1}"
    proof
      fix x assume x: "x \<in> valid_refs msgs"
      obtain c k where e: "x = (c, k)" by (cases x)
      have c: "c < length msgs" "k < length (msgs ! c)"
        using x by (simp_all add: valid_refs_def e)
      have "length (msgs ! c) \<le> Max (insert 0 (length ` set msgs))"
        using c(1) by (intro Max_ge) auto
      then have "k < Max (insert 0 (length ` set msgs)) + 1"
        using c(2) by linarith
      then show "x \<in> {..<length msgs} \<times> {..<Max (insert 0 (length ` set msgs)) + 1}"
        using c(1) unfolding e by blast
    qed
  qed simp
  define A where "A = insert 0 (finish_time ` sched_store s ` valid_refs msgs)"
  have "finite A" unfolding A_def using fin by simp
  moreover have "y \<le> t" if "y \<in> A" for y
    using that 1 2 unfolding A_def by auto
  moreover have "t \<in> A"
    using 3 unfolding A_def by auto
  ultimately have "Max A = t" by (intro Max_eqI)
  then show ?thesis
    unfolding finish_time_sets out scheduled_messages_set A_def by simp
qed

theorem schedule_messages_latest_finish_time_witness:
  "schedule_messages example_run example_sched
     = Inr (100, snd (projr (schedule_messages example_run example_sched)))
   \<and> length example_run = 2
   \<and> list_all (\<lambda>m. src_core_id m = 0 \<and> 0 \<le> network_delay m \<and> 0 \<le> receive_delay m)
        (example_run ! 0)
   \<and> list_all (\<lambda>m. src_core_id m = 1 \<and> 0 \<le> network_delay m \<and> 0 \<le> receive_delay m)
        (example_run ! 1)
   \<and> Max ({0} \<union> processed_timestamp `
               {m \<in> set (concat (snd (projr (schedule_messages example_run example_sched)))).
                  \<not> placeholder m}
            \<union> sent_timestamp `
               {m \<in> set (concat (snd (projr (schedule_messages example_run example_sched)))).
                  placeholder m}) = 100"
proof -
  define out where "out = snd (projr (schedule_messages example_run example_sched))"
  have run: "schedule_messages example_run example_sched = Inr (100, out)"
    using example_run_schedule unfolding out_def
    by (cases "schedule_messages example_run example_sched") auto
  have len: "length example_run = 2"
    by (simp add: example_run_def)
  have l0: "list_all (\<lambda>m. src_core_id m = 0 \<and> 0 \<le> network_delay m \<and> 0 \<le> receive_delay m)
        (example_run ! 0)"
    and l1: "list_all (\<lambda>m. src_core_id m = 1 \<and> 0 \<le> network_delay m \<and> 0 \<le> receive_delay m)
        (example_run ! 1)"
    by (simp_all add: example_run_def example_spike_def example_placeholder_def example_message_def)
  have "\<forall>m \<in> set (example_run ! c).
           src_core_id m = int c \<and> 0 \<le> network_delay m \<and> 0 \<le> receive_delay m"
    if "c < length example_run" for c
  proof -
    have "c = 0 \<or> c = 1" using that len by auto
    then show ?thesis using l0 l1 by (auto simp add: list_all_iff)
  qed
  then have wf: "\<forall>c < length example_run. \<forall>m \<in> set (example_run ! c).
           src_core_id m = int c \<and> 0 \<le> network_delay m \<and> 0 \<le> receive_delay m"
    by blast
  from schedule_messages_latest_finish_time[OF run wf]
  have "Max ({0} \<union> processed_timestamp ` {m \<in> set (concat out). \<not> placeholder m}
            \<union> sent_timestamp ` {m \<in> set (concat out). placeholder m}) = 100"
    by simp
  then show ?thesis
    using run len l0 l1 unfolding out_def[symmetric] by simp
qed

text \<open>
  C2 as stated fails on a run with two spike messages of core 0 and a placeholder of core
  1 whose \<open>generation_delay\<close> is 100: the spikes are processed at 6 and at 9, the
  placeholder is sent at 100, and \<open>schedule_messages\<close> returns 100, not 9.
\<close>

theorem schedule_messages_max_processed_counterexample:
  "(case schedule_messages example_run example_sched of
      Inl e \<Rightarrow> False
    | Inr (t, out) \<Rightarrow>
        t = 100
        \<and> map processed_timestamp (filter (\<lambda>m. \<not> placeholder m) (concat out)) = [6, 9]
        \<and> map sent_timestamp (filter placeholder (concat out)) = [100])"
  by (simp add: schedule_defs example_run_def example_sched_def example_spike_def
      example_message_def example_placeholder_def upt_rec rep6)

subsection \<open>Back-pressure and the destination link\<close>

lemmas example_crowded_defs = example_crowded_run_def example_sched_def example_local_def
  example_blocked_def example_message_def upt_rec rep6

text \<open>
  C6 on the run \<open>example_crowded_run\<close>, at the turn that pops the message of core 4,
  after the three turns
  that sent the messages of core 5 at 1, 2 and 3; these are received at 101 and later, so
  they are in flight at 10. The route of the popped message has no hop and two links: the
  out-link of core 4, which is empty, and the in-link of core 5, which holds \<open>3/2\<close>. The
  route density \<open>3/2\<close> exceeds \<open>(hops + 1) * buffer_size = 1\<close>, and with the mean receive
  delay 3 the rule raises \<open>sent_timestamp\<close> by \<open>3/2\<close>. The code sums \<open>hops + 1\<close> entries
  and never the in-link of the destination: \<^verbatim>\<open>schedule_calculate_messages_along_route\<close>
  returns 0, and \<open>sent_timestamp\<close> stays at 10, in this turn and at the end of the run.
\<close>

theorem back_pressure_misses_destination_link:
  "(case schedule_turns (Suc (Suc (Suc 0))) example_sched
           (initial_state example_crowded_run example_sched) of
      Inl e \<Rightarrow> False
    | Inr s \<Rightarrow>
        pq_top (sched_store s) (priority s) = (4, 0)
        \<and> sched_store s (4, 0) = example_blocked\<lparr>sent_timestamp := 10\<rparr>
        \<and> (case schedule_update_noc 10 (sched_store s, noc s) of (st1, nc1) \<Rightarrow>
              st1 (4, 0) = example_blocked\<lparr>sent_timestamp := 10\<rparr>
              \<and> message_density nc1
                  ! idx nc1 (src_x example_blocked) (src_y example_blocked)
                      (ndirections + src_core_offset example_blocked) = 0
              \<and> message_density nc1
                  ! idx nc1 (dest_x example_blocked) (dest_y example_blocked)
                      (ndirections + dest_core_offset example_blocked) = 3/2
              \<and> (real (hops example_blocked) + 1) * real (buffer_size example_sched) = 1
              \<and> path_capacity example_sched (st1 (4, 0)) = 1
              \<and> mean_in_flight_receive_delay nc1 = 3
              \<and> schedule_calculate_messages_along_route (st1 (4, 0)) nc1 = Inr 0)
        \<and> (case schedule_step example_sched s of
              Inl e \<Rightarrow> False
            | Inr s' \<Rightarrow> sent_timestamp (sched_store s' (4, 0)) = 10))
   \<and> (case schedule_messages example_crowded_run example_sched of
         Inl e \<Rightarrow> False
       | Inr (t, out) \<Rightarrow>
           map (map (\<lambda>m. (sent_timestamp m, received_timestamp m))) out
             = [[], [], [], [], [(10, 110)], [(1, 101), (2, 104), (3, 107)]])"
  by (simp add: schedule_defs example_crowded_defs)

end
